theory Spec2Isabelle
  imports Complex_Main
begin

section \<open>Cards (Card.js)\<close>

text \<open>
  A card is the frozen object built by \<open>createCard\<close>: an identifier, the display
  symbol of its rank, its suit and its base Blackjack value.  The numeric field of the
  source is called \<open>value\<close>; it is \<open>card_value\<close> here.  Card values are whole numbers
  in the source's rank table, so they are integers.
\<close>

record card =
  card_id :: string
  rank :: string
  suit :: string
  card_value :: int

record rankInfo =
  rname :: string
  symbol :: string
  rvalue :: int

definition SUITS :: "string list" where
  "SUITS = [''Hearts'', ''Diamonds'', ''Clubs'', ''Spades'']"

definition RANKS :: "rankInfo list" where
  "RANKS =
    [\<lparr>rname = ''ace'', symbol = ''A'', rvalue = 11\<rparr>,
     \<lparr>rname = ''two'', symbol = ''2'', rvalue = 2\<rparr>,
     \<lparr>rname = ''three'', symbol = ''3'', rvalue = 3\<rparr>,
     \<lparr>rname = ''four'', symbol = ''4'', rvalue = 4\<rparr>,
     \<lparr>rname = ''five'', symbol = ''5'', rvalue = 5\<rparr>,
     \<lparr>rname = ''six'', symbol = ''6'', rvalue = 6\<rparr>,
     \<lparr>rname = ''seven'', symbol = ''7'', rvalue = 7\<rparr>,
     \<lparr>rname = ''eight'', symbol = ''8'', rvalue = 8\<rparr>,
     \<lparr>rname = ''nine'', symbol = ''9'', rvalue = 9\<rparr>,
     \<lparr>rname = ''ten'', symbol = ''10'', rvalue = 10\<rparr>,
     \<lparr>rname = ''jack'', symbol = ''J'', rvalue = 10\<rparr>,
     \<lparr>rname = ''queen'', symbol = ''Q'', rvalue = 10\<rparr>,
     \<lparr>rname = ''king'', symbol = ''K'', rvalue = 10\<rparr>]"

definition createCard :: "rankInfo \<Rightarrow> string \<Rightarrow> card" where
  "createCard rankInfo s =
     \<lparr>card_id = rname rankInfo @ s, rank = symbol rankInfo, suit = s,
      card_value = rvalue rankInfo\<rparr>"

definition isAce :: "card \<Rightarrow> bool" where
  "isAce c = (rank c = ''A'')"

section \<open>Hands (Hand.js)\<close>

text \<open>
  \<open>evaluate\<close>: the first loop sums the base values and counts the aces, the second
  loop (\<open>reduce_aces\<close>) takes 10 off while the total is over 21 and an ace is left.
  The object \<open>{ total, soft }\<close> it returns is the pair \<open>(total, soft)\<close>;
  the method \<open>total()\<close> of a hand is \<open>hand_total\<close>.
\<close>

fun sum_cards :: "card list \<Rightarrow> int \<Rightarrow> nat \<Rightarrow> int \<times> nat" where
  "sum_cards [] tot aces = (tot, aces)"
| "sum_cards (c # cs) tot aces =
     sum_cards cs (tot + card_value c) (if isAce c then aces + 1 else aces)"

function reduce_aces :: "int \<Rightarrow> nat \<Rightarrow> int \<times> nat" where
  "reduce_aces tot aces =
     (if tot > 21 \<and> aces > 0 then reduce_aces (tot - 10) (aces - 1)
      else (tot, aces))"
  by pat_completeness auto
termination
  by (relation "measure (\<lambda>(tot, aces). aces)") auto

declare reduce_aces.simps [simp del]

definition evaluate :: "card list \<Rightarrow> int \<times> bool" where
  "evaluate cs =
     (case sum_cards cs 0 0 of (tot, aces) \<Rightarrow>
        (case reduce_aces tot aces of (tot', aces') \<Rightarrow> (tot', aces' > 0)))"

text \<open>
  A wager is a JavaScript number.  The model keeps the rationals and the one number
  that is falsy without being zero, \<open>NaN\<close>; the infinities and the sign of zero are
  left out.
\<close>

datatype jsnum = Num rat | NaN

fun truthy :: "jsnum \<Rightarrow> bool" where
  "truthy (Num r) = (r \<noteq> 0)"
| "truthy NaN = False"

fun js_times :: "jsnum \<Rightarrow> rat \<Rightarrow> jsnum" where
  "js_times (Num r) k = Num (r * k)"
| "js_times NaN k = NaN"

text \<open>
  The closure returned by \<open>createHand\<close> owns the array \<open>cards\<close>, the flag
  \<open>settled\<close>, the wager \<open>bet\<close> and the constant \<open>isDealerHand\<close>.
\<close>

record hand =
  hand_cards :: "card list"
  settled :: bool
  bet :: jsnum
  isDealerHand :: bool

definition createHand :: "bool \<Rightarrow> jsnum \<Rightarrow> hand" where
  "createHand dealerFlag b =
     \<lparr>hand_cards = [], settled = False, bet = b, isDealerHand = dealerFlag\<rparr>"

definition addCards :: "card list \<Rightarrow> hand \<Rightarrow> hand" where
  "addCards newCards h = h\<lparr>hand_cards := hand_cards h @ newCards\<rparr>"

definition hand_value :: "hand \<Rightarrow> int \<times> bool" where
  "hand_value h = evaluate (hand_cards h)"

definition hand_total :: "hand \<Rightarrow> int" where
  "hand_total h = fst (evaluate (hand_cards h))"

definition isSoft :: "hand \<Rightarrow> bool" where
  "isSoft h = snd (evaluate (hand_cards h))"

definition isBusted :: "hand \<Rightarrow> bool" where
  "isBusted h = (hand_total h > 21)"

definition isBlackjack :: "hand \<Rightarrow> bool" where
  "isBlackjack h = (length (hand_cards h) = 2 \<and> hand_total h = 21)"

definition canSplit :: "hand \<Rightarrow> bool" where
  "canSplit h =
     (length (hand_cards h) = 2 \<and> rank (hand_cards h ! 0) = rank (hand_cards h ! 1))"

definition canDoubleDown :: "hand \<Rightarrow> bool" where
  "canDoubleDown h = (length (hand_cards h) = 2)"

datatype error =
    CannotBetInState
  | AtLeastOneBetRequired
  | CannotHitInState
  | CannotStandInState
  | CannotDoubleInState
  | DoubleDownNotAllowed
  | CannotSplitInState
  | SplitNotAllowed
  | HandCannotBeSplit
  | TypeError

definition hand_split :: "hand \<Rightarrow> error + hand \<times> hand" where
  "hand_split h =
     (if \<not> canSplit h then Inl HandCannotBeSplit
      else Inr (addCards [hand_cards h ! 0] (createHand False (bet h)),
                addCards [hand_cards h ! 1] (createHand False (bet h))))"

definition hand_settle :: "hand \<Rightarrow> hand" where
  "hand_settle h = h\<lparr>settled := True\<rparr>"

definition isSettled :: "hand \<Rightarrow> bool" where
  "isSettled h = (settled h \<or> isBusted h \<or> isBlackjack h)"

definition getCards :: "hand \<Rightarrow> card list" where
  "getCards h = hand_cards h"

definition hand_size :: "hand \<Rightarrow> nat" where
  "hand_size h = length (hand_cards h)"

definition getBet :: "hand \<Rightarrow> jsnum" where
  "getBet h = bet h"

definition doubleBet :: "hand \<Rightarrow> hand" where
  "doubleBet h = h\<lparr>bet := js_times (bet h) 2\<rparr>"

section \<open>Outcomes and payouts (Evaluator.js)\<close>

datatype Outcome = WIN | BLACKJACK | LOSE | PUSH | DEALER_BUST

text \<open>
  \<open>compareHands\<close> keeps the source's order of tests.  The payout multipliers
  \<open>1.5, 1, 0, -1\<close> are rationals.
\<close>

definition compareHands :: "hand \<Rightarrow> hand \<Rightarrow> Outcome \<times> rat" where
  "compareHands playerHand dealerHand =
     (let pTotal = hand_total playerHand; dTotal = hand_total dealerHand in
      if isBusted playerHand then (LOSE, -1)
      else if isBlackjack playerHand then
        (if isBlackjack dealerHand then (PUSH, 0) else (BLACKJACK, 3 / 2))
      else if isBusted dealerHand then (DEALER_BUST, 1)
      else if pTotal > dTotal then (WIN, 1)
      else if pTotal < dTotal then (LOSE, -1)
      else (PUSH, 0))"

record roundResult =
  res_hand :: hand
  outcome :: Outcome
  payout :: rat
  net :: jsnum

definition settleRound :: "hand list \<Rightarrow> hand \<Rightarrow> roundResult list" where
  "settleRound playerHands dealerHand =
     map (\<lambda>h. case compareHands h dealerHand of (oc, p) \<Rightarrow>
            \<lparr>res_hand = h, outcome = oc, payout = p, net = js_times (getBet h) p\<rparr>)
         playerHands"

section \<open>The shoe (Deck.js)\<close>

definition buildSingleDeck :: "card list" where
  "buildSingleDeck = concat (map (\<lambda>r. map (\<lambda>s. createCard r s) SUITS) RANKS)"

text \<open>
  \<open>Math.random()\<close> returns a number in \<open>[0, 1)\<close>.  The random source is a sequence
  \<open>r\<close> of rationals read at a position that every call advances; the call returns the
  fractional part of the entry, so every sequence of numbers in \<open>[0, 1)\<close> is a
  possible source and no other number is ever returned.  Arithmetic on these numbers
  is exact here, where the source rounds to double precision.
\<close>

definition Math_random :: "(nat \<Rightarrow> rat) \<Rightarrow> nat \<Rightarrow> rat" where
  "Math_random r p = frac (r p)"

text \<open>
  \<open>fisherYatesShuffle\<close>: \<open>fy_loop i\<close> runs the iterations \<open>i, i - 1, ..., 1\<close> of the
  loop, and the shuffle starts it at \<open>arr.length - 1\<close>.  It returns the array and the
  position of the random source after the calls it made.
\<close>

fun fy_loop :: "nat \<Rightarrow> (nat \<Rightarrow> rat) \<Rightarrow> nat \<Rightarrow> 'a list \<Rightarrow> 'a list \<times> nat" where
  "fy_loop 0 r p arr = (arr, p)"
| "fy_loop (Suc i) r p arr =
     (let j = nat \<lfloor>Math_random r p * (of_nat (Suc i) + 1)\<rfloor>
      in fy_loop i r (Suc p) (arr[Suc i := arr ! j, j := arr ! Suc i]))"

definition fisherYatesShuffle :: "(nat \<Rightarrow> rat) \<Rightarrow> nat \<Rightarrow> 'a list \<Rightarrow> 'a list \<times> nat" where
  "fisherYatesShuffle r p arr = fy_loop (length arr - 1) r p arr"

text \<open>
  The closure of \<open>createDeck\<close>: its two parameters, its three variables, and the
  random source with the position reached.
\<close>

record deck =
  numDecks :: nat
  penetration :: rat
  cards :: "card list"
  totalCards :: nat
  discardPile :: "card list"
  rnd :: "nat \<Rightarrow> rat"
  rndPos :: nat

definition reset :: "deck \<Rightarrow> deck" where
  "reset d =
     (let cs = concat (replicate (numDecks d) buildSingleDeck) in
      case fisherYatesShuffle (rnd d) (rndPos d) cs of (cs', p') \<Rightarrow>
        d\<lparr>cards := cs', discardPile := [], totalCards := length cs, rndPos := p'\<rparr>)"

definition createDeck :: "nat \<Rightarrow> rat \<Rightarrow> (nat \<Rightarrow> rat) \<Rightarrow> deck" where
  "createDeck n pen r =
     reset \<lparr>numDecks = n, penetration = pen, cards = [], totalCards = 0,
            discardPile = [], rnd = r, rndPos = 0\<rparr>"

definition burn :: "nat \<Rightarrow> deck \<Rightarrow> card list \<times> deck" where
  "burn count d =
     (let burned = take count (cards d) in
      (burned, d\<lparr>cards := drop count (cards d), discardPile := discardPile d @ burned\<rparr>))"

definition needsReshuffle :: "deck \<Rightarrow> bool" where
  "needsReshuffle d =
     (int (length (cards d)) \<le> \<lfloor>of_nat (totalCards d) * (1 - penetration d)\<rfloor>)"

definition reshuffle :: "deck \<Rightarrow> deck" where
  "reshuffle d =
     (let cs = cards d @ discardPile d in
      case fisherYatesShuffle (rnd d) (rndPos d) cs of (cs', p') \<Rightarrow>
        d\<lparr>cards := cs', discardPile := [], totalCards := length cs, rndPos := p'\<rparr>)"

definition draw :: "nat \<Rightarrow> deck \<Rightarrow> card list \<times> deck" where
  "draw count d =
     (let d1 = (if needsReshuffle d then reshuffle d else d);
          count' = (if count > length (cards d1) then length (cards d1) else count)
      in (take count' (cards d1), d1\<lparr>cards := drop count' (cards d1)\<rparr>))"

definition discard :: "card list \<Rightarrow> deck \<Rightarrow> deck" where
  "discard discardedCards d = d\<lparr>discardPile := discardPile d @ discardedCards\<rparr>"

definition remaining :: "deck \<Rightarrow> nat" where
  "remaining d = length (cards d)"

section \<open>The dealer service (Dealer.js)\<close>

record dealer =
  shoe :: deck
  dealerHitsSoft17 :: bool

definition createDealer :: "nat \<Rightarrow> rat \<Rightarrow> bool \<Rightarrow> (nat \<Rightarrow> rat) \<Rightarrow> dealer" where
  "createDealer n pen h17 r = \<lparr>shoe = createDeck n pen r, dealerHitsSoft17 = h17\<rparr>"

definition burnCard :: "dealer \<Rightarrow> card list \<times> dealer" where
  "burnCard dl = (case burn 1 (shoe dl) of (burned, s') \<Rightarrow> (burned, dl\<lparr>shoe := s'\<rparr>))"

definition dealer_remaining :: "dealer \<Rightarrow> nat" where
  "dealer_remaining dl = remaining (shoe dl)"

definition dealer_reshuffle :: "dealer \<Rightarrow> dealer" where
  "dealer_reshuffle dl = dl\<lparr>shoe := reset (shoe dl)\<rparr>"

definition discardCards :: "card list \<Rightarrow> dealer \<Rightarrow> dealer" where
  "discardCards cs dl = dl\<lparr>shoe := discard cs (shoe dl)\<rparr>"

text \<open>
  \<open>bets[i] || 0\<close>: the entry when the index is inside the array and the entry is
  truthy, and 0 otherwise.
\<close>

definition bet_or_zero :: "jsnum list \<Rightarrow> nat \<Rightarrow> jsnum" where
  "bet_or_zero bets i = (if i < length bets \<and> truthy (bets ! i) then bets ! i else Num 0)"

text \<open>One pass of the inner loop: one draw of one card for each player hand in turn.\<close>

fun deal_to_hands :: "hand list \<Rightarrow> deck \<Rightarrow> hand list \<times> deck" where
  "deal_to_hands [] d = ([], d)"
| "deal_to_hands (h # hs) d =
     (case draw 1 d of (drawn, d1) \<Rightarrow>
        (case deal_to_hands hs d1 of (hs', d2) \<Rightarrow> (addCards drawn h # hs', d2)))"

definition deal_pass :: "hand list \<times> hand \<times> deck \<Rightarrow> hand list \<times> hand \<times> deck" where
  "deal_pass st =
     (case st of (hs, dh, d) \<Rightarrow>
        (case deal_to_hands hs d of (hs', d1) \<Rightarrow>
           (case draw 1 d1 of (drawn, d2) \<Rightarrow> (hs', addCards drawn dh, d2))))"

definition dealInitial :: "nat \<Rightarrow> jsnum list \<Rightarrow> dealer \<Rightarrow> hand list \<times> hand \<times> dealer" where
  "dealInitial numPlayers bets dl =
     (case burnCard dl of (burned, dl1) \<Rightarrow>
        (let playerHands = map (\<lambda>i. createHand False (bet_or_zero bets i)) [0..<numPlayers];
             dealerHand = createHand True (Num 0)
         in case deal_pass (deal_pass (playerHands, dealerHand, shoe dl1)) of
              (hs, dh, s') \<Rightarrow> (hs, dh, dl1\<lparr>shoe := s'\<rparr>)))"

text \<open>
  \<open>hit\<close> returns the card drawn (\<open>None\<close> for \<open>undefined\<close>), the hand and the dealer.
\<close>

definition hit :: "hand \<Rightarrow> dealer \<Rightarrow> card option \<times> hand \<times> dealer" where
  "hit h dl =
     (case draw 1 (shoe dl) of (drawn, s') \<Rightarrow>
        (case drawn of
           [] \<Rightarrow> (None, h, dl\<lparr>shoe := s'\<rparr>)
         | c # rest \<Rightarrow> (Some c, addCards [c] h, dl\<lparr>shoe := s'\<rparr>)))"

definition shouldDealerHit :: "dealer \<Rightarrow> hand \<Rightarrow> bool" where
  "shouldDealerHit dl h =
     (case hand_value h of (tot, soft) \<Rightarrow>
        if tot < 17 then True
        else if tot = 17 \<and> soft \<and> dealerHitsSoft17 dl then True
        else False)"

text \<open>
  The loop of \<open>playDealerHand\<close> has no bound in the source, so the function is partial:
  \<open>None\<close> is a call that does not return.  A result is the total returned, the
  dealer hand and the dealer.
\<close>

partial_function (option) playDealerHand :: "dealer \<Rightarrow> hand \<Rightarrow> (int \<times> hand \<times> dealer) option" where
  "playDealerHand dl h =
     (if shouldDealerHit dl h
      then playDealerHand (snd (snd (hit h dl))) (fst (snd (hit h dl)))
      else Some (hand_total (hand_settle h), hand_settle h, dl))"

declare playDealerHand.simps [code]

section \<open>The round state machine (GameState.js)\<close>

datatype State = BETTING | DEALING | PLAYER_TURN | DEALER_TURN | SETTLEMENT | GAME_OVER

text \<open>
  The closure of \<open>createGame\<close>.  \<open>dealerHand\<close> is \<open>None\<close> where the source holds
  \<open>null\<close>.  The listeners are left out: \<open>emit\<close> calls them and does nothing else, and a
  view never changes the hands or the shoe it is shown.  A result keeps the value of the
  hand it refers to; no hand changes after a settlement.
\<close>

record game =
  dealer :: dealer
  state :: State
  playerHands :: "hand list"
  dealerHand :: "hand option"
  activeHandIdx :: nat
  results :: "roundResult list"

text \<open>
  An action either returns or throws; both leave a state of the engine behind, and the
  state left by a throw is what was changed before it.  An action that runs the dealer
  loop may also never return (\<open>None\<close>).
\<close>

datatype result = Returned game | Threw error game

fun final :: "result \<Rightarrow> game" where
  "final (Returned g) = g"
| "final (Threw e g) = g"

definition createGame :: "nat \<Rightarrow> rat \<Rightarrow> bool \<Rightarrow> (nat \<Rightarrow> rat) \<Rightarrow> game" where
  "createGame n pen h17 r =
     \<lparr>dealer = createDealer n pen h17 r, state = BETTING, playerHands = [],
      dealerHand = None, activeHandIdx = 0, results = []\<rparr>"

definition getActiveHand :: "game \<Rightarrow> hand option" where
  "getActiveHand g =
     (if activeHandIdx g < length (playerHands g)
      then Some (playerHands g ! activeHandIdx g) else None)"

text \<open>
  \<open>settle\<close>: with no dealer hand, \<open>settleRound\<close> fails on the first player hand, or,
  when there is none, the results are stored and collecting the dealer's cards fails.
\<close>

definition settle :: "game \<Rightarrow> result" where
  "settle g =
     (case dealerHand g of
        None \<Rightarrow> Threw TypeError (if playerHands g = [] then g\<lparr>results := []\<rparr> else g)
      | Some dh \<Rightarrow>
          (let g1 = g\<lparr>results := settleRound (playerHands g) dh\<rparr>;
               allCards = concat (map getCards (playerHands g1)) @ getCards dh
           in Returned (g1\<lparr>dealer := discardCards allCards (dealer g1), state := GAME_OVER\<rparr>)))"

definition beginDealerTurn :: "game \<Rightarrow> result option" where
  "beginDealerTurn g =
     (let allBusted = list_all isBusted (playerHands g);
          g1 = g\<lparr>state := DEALER_TURN\<rparr>
      in case dealerHand g1 of
           None \<Rightarrow> Some (Threw TypeError g1)
         | Some dh \<Rightarrow>
             if \<not> allBusted then
               (case playDealerHand (dealer g1) dh of
                  None \<Rightarrow> None
                | Some (t, dh', dl') \<Rightarrow>
                    Some (settle (g1\<lparr>dealer := dl', dealerHand := Some dh', state := SETTLEMENT\<rparr>)))
             else Some (settle (g1\<lparr>dealerHand := Some (hand_settle dh), state := SETTLEMENT\<rparr>)))"

function skip_loop :: "hand list \<Rightarrow> nat \<Rightarrow> nat" where
  "skip_loop hs i = (if i < length hs \<and> isSettled (hs ! i) then skip_loop hs (i + 1) else i)"
  by pat_completeness auto
termination
  by (relation "measure (\<lambda>(hs, i). length hs - i)") auto

declare skip_loop.simps [simp del]

definition skipSettledHands :: "game \<Rightarrow> result option" where
  "skipSettledHands g =
     (let g1 = g\<lparr>activeHandIdx := skip_loop (playerHands g) (activeHandIdx g)\<rparr>
      in if activeHandIdx g1 \<ge> length (playerHands g1) then beginDealerTurn g1
         else Some (Returned g1))"

definition advanceHand :: "game \<Rightarrow> result option" where
  "advanceHand g = skipSettledHands (g\<lparr>activeHandIdx := activeHandIdx g + 1\<rparr>)"

definition placeBets :: "jsnum list \<Rightarrow> game \<Rightarrow> result option" where
  "placeBets bets g =
     (if state g \<noteq> BETTING then Some (Threw CannotBetInState g)
      else if length bets = 0 then Some (Threw AtLeastOneBetRequired g)
      else
        (case dealInitial (length bets) bets (dealer g) of (hs, dh, dl') \<Rightarrow>
           (let g1 = g\<lparr>state := DEALING, dealer := dl', playerHands := hs,
                       dealerHand := Some dh, activeHandIdx := 0, results := []\<rparr>
            in if isBlackjack dh then Some (settle (g1\<lparr>state := SETTLEMENT\<rparr>))
               else if list_all isBlackjack hs then Some (settle (g1\<lparr>state := SETTLEMENT\<rparr>))
               else skipSettledHands (g1\<lparr>state := PLAYER_TURN\<rparr>))))"

text \<open>
  In the player actions, an active index outside \<open>playerHands\<close> makes \<open>getActiveHand\<close>
  return \<open>null\<close>, and the first method called on it fails.  In \<open>playerHit\<close> the shoe has
  drawn by then.
\<close>

definition playerHit :: "game \<Rightarrow> result option" where
  "playerHit g =
     (if state g \<noteq> PLAYER_TURN then Some (Threw CannotHitInState g)
      else case getActiveHand g of
        None \<Rightarrow>
          Some (Threw TypeError (g\<lparr>dealer := (dealer g)\<lparr>shoe := snd (draw 1 (shoe (dealer g)))\<rparr>\<rparr>))
      | Some h \<Rightarrow>
          (case hit h (dealer g) of (c, h', dl') \<Rightarrow>
             (let g1 = g\<lparr>dealer := dl', playerHands := (playerHands g)[activeHandIdx g := h']\<rparr>
              in if isBusted h'
                 then advanceHand
                        (g1\<lparr>playerHands := (playerHands g1)[activeHandIdx g1 := hand_settle h']\<rparr>)
                 else Some (Returned g1))))"

definition playerStand :: "game \<Rightarrow> result option" where
  "playerStand g =
     (if state g \<noteq> PLAYER_TURN then Some (Threw CannotStandInState g)
      else case getActiveHand g of
        None \<Rightarrow> Some (Threw TypeError g)
      | Some h \<Rightarrow>
          advanceHand (g\<lparr>playerHands := (playerHands g)[activeHandIdx g := hand_settle h]\<rparr>))"

definition playerDoubleDown :: "game \<Rightarrow> result option" where
  "playerDoubleDown g =
     (if state g \<noteq> PLAYER_TURN then Some (Threw CannotDoubleInState g)
      else case getActiveHand g of
        None \<Rightarrow> Some (Threw TypeError g)
      | Some h \<Rightarrow>
          if \<not> canDoubleDown h then Some (Threw DoubleDownNotAllowed g)
          else
            (case hit (doubleBet h) (dealer g) of (c, h', dl') \<Rightarrow>
               advanceHand
                 (g\<lparr>dealer := dl',
                    playerHands := (playerHands g)[activeHandIdx g := hand_settle h']\<rparr>)))"

text \<open>
  \<open>playerHands.splice(activeHandIdx, 1, handA, handB)\<close> puts the two hands in the
  place of the active one.
\<close>

definition playerSplit :: "game \<Rightarrow> result option" where
  "playerSplit g =
     (if state g \<noteq> PLAYER_TURN then Some (Threw CannotSplitInState g)
      else case getActiveHand g of
        None \<Rightarrow> Some (Threw TypeError g)
      | Some h \<Rightarrow>
          if \<not> canSplit h then Some (Threw SplitNotAllowed g)
          else
            (case hand_split h of
               Inl e \<Rightarrow> Some (Threw e g)
             | Inr (handA, handB) \<Rightarrow>
                 (case hit handA (dealer g) of (ca, handA', dl1) \<Rightarrow>
                    (case hit handB dl1 of (cb, handB', dl2) \<Rightarrow>
                       skipSettledHands
                         (g\<lparr>dealer := dl2,
                            playerHands :=
                              take (activeHandIdx g) (playerHands g) @ [handA', handB']
                              @ drop (activeHandIdx g + 1) (playerHands g)\<rparr>)))))"

definition newRound :: "game \<Rightarrow> game" where
  "newRound g =
     g\<lparr>playerHands := [], dealerHand := None, activeHandIdx := 0, results := [],
       state := BETTING\<rparr>"

text \<open>The action API, and a caller that goes on after an action has thrown.\<close>

datatype action =
    PlaceBets "jsnum list"
  | PlayerHit
  | PlayerStand
  | PlayerDoubleDown
  | PlayerSplit
  | NewRound

fun perform :: "action \<Rightarrow> game \<Rightarrow> result option" where
  "perform (PlaceBets bets) g = placeBets bets g"
| "perform PlayerHit g = playerHit g"
| "perform PlayerStand g = playerStand g"
| "perform PlayerDoubleDown g = playerDoubleDown g"
| "perform PlayerSplit g = playerSplit g"
| "perform NewRound g = Some (Returned (newRound g))"

fun run :: "game \<Rightarrow> action list \<Rightarrow> game option" where
  "run g [] = Some g"
| "run g (a # as) =
     (case perform a g of None \<Rightarrow> None | Some r \<Rightarrow> run (final r) as)"

section \<open>Example data\<close>

text \<open>
  \<open>card_of i s\<close> is the card of suit \<open>s\<close> made from entry \<open>i\<close> of the rank table:
  entry 0 is the ace, entry 1 the two, entry 8 the nine, entry 9 the ten, entry 12 the
  king.  \<open>hand_of\<close> is a player hand without a wager that holds the given cards.
\<close>

definition card_of :: "nat \<Rightarrow> string \<Rightarrow> card" where
  "card_of i s = createCard (RANKS ! i) s"

definition hand_of :: "card list \<Rightarrow> hand" where
  "hand_of cs = addCards cs (createHand False (Num 0))"

text \<open>The cards used in the examples, under the identifiers the source gives them.\<close>

definition aceClubs :: card where
  "aceClubs = card_of 0 ''Clubs''"

definition aceDiamonds :: card where
  "aceDiamonds = card_of 0 ''Diamonds''"

definition aceHearts :: card where
  "aceHearts = card_of 0 ''Hearts''"

definition aceSpades :: card where
  "aceSpades = card_of 0 ''Spades''"

definition twoClubs :: card where
  "twoClubs = card_of 1 ''Clubs''"

definition twoDiamonds :: card where
  "twoDiamonds = card_of 1 ''Diamonds''"

definition twoHearts :: card where
  "twoHearts = card_of 1 ''Hearts''"

definition twoSpades :: card where
  "twoSpades = card_of 1 ''Spades''"

definition fiveClubs :: card where
  "fiveClubs = card_of 4 ''Clubs''"

definition fiveSpades :: card where
  "fiveSpades = card_of 4 ''Spades''"

definition sixDiamonds :: card where
  "sixDiamonds = card_of 5 ''Diamonds''"

definition sixHearts :: card where
  "sixHearts = card_of 5 ''Hearts''"

definition eightClubs :: card where
  "eightClubs = card_of 7 ''Clubs''"

definition nineClubs :: card where
  "nineClubs = card_of 8 ''Clubs''"

definition nineHearts :: card where
  "nineHearts = card_of 8 ''Hearts''"

definition tenHearts :: card where
  "tenHearts = card_of 9 ''Hearts''"

definition tenSpades :: card where
  "tenSpades = card_of 9 ''Spades''"

definition jackClubs :: card where
  "jackClubs = card_of 10 ''Clubs''"

definition queenClubs :: card where
  "queenClubs = card_of 11 ''Clubs''"

definition queenHearts :: card where
  "queenHearts = card_of 11 ''Hearts''"

definition kingHearts :: card where
  "kingHearts = card_of 12 ''Hearts''"

definition kingSpades :: card where
  "kingSpades = card_of 12 ''Spades''"

text \<open>
  \<open>hits k\<close> is the dealer hand and the dealer after \<open>k\<close> calls of \<open>hit\<close> on that
  hand, the body of the loop of \<open>playDealerHand\<close>.
\<close>

fun hits :: "nat \<Rightarrow> hand \<times> dealer \<Rightarrow> hand \<times> dealer" where
  "hits 0 st = st"
| "hits (Suc n) st = hits n (snd (hit (fst st) (snd st)))"

text \<open>
  A one-deck S17 game whose random source always returns 0: every step of the shuffle
  then swaps with the first position, which moves the first card of the fresh deck to
  the end.
\<close>

definition demo_game :: game where
  "demo_game = createGame 1 (3 / 4) False (\<lambda>k. 0)"


text \<open>The dealer hand \<open>{A, 6}\<close>.\<close>

definition soft17_hand :: hand where
  "soft17_hand = addCards [aceSpades, sixHearts] (createHand True (Num 0))"

section \<open>Counting cards\<close>

text \<open>
  The cards of a shoe are those of its live pile and of its discard pile.
  \<open>hands_count\<close> is the number of cards held by a list of hands.  The cards in play
  are those of the player hands and of the dealer hand while the players act
  (\<open>PLAYER_TURN\<close>); before the deal (\<open>BETTING\<close>) there is no hand, and at the end of a
  round (\<open>GAME_OVER\<close>) the cards of the hands have been handed over to the discard pile.
\<close>

definition shoe_count :: "deck \<Rightarrow> nat" where
  "shoe_count d = length (cards d) + length (discardPile d)"

definition hands_count :: "hand list \<Rightarrow> nat" where
  "hands_count hs = sum_list (map hand_size hs)"

definition inPlay :: "game \<Rightarrow> nat" where
  "inPlay g =
     (if state g = PLAYER_TURN
      then hands_count (playerHands g)
           + (case dealerHand g of None \<Rightarrow> 0 | Some dh \<Rightarrow> hand_size dh)
      else 0)"

text \<open>
  A card as the rank table makes it: an ace is worth 11, any other card between 2 and 10.
\<close>

definition valid_card :: "card \<Rightarrow> bool" where
  "valid_card c = (if isAce c then card_value c = 11 else 2 \<le> card_value c \<and> card_value c \<le> 10)"

definition shoe_valid :: "deck \<Rightarrow> bool" where
  "shoe_valid d = list_all valid_card (cards d @ discardPile d)"

text \<open>
  The state of \<open>demo_game\<close> after one player has bet 10: the ace of diamonds is
  burnt, the player holds the ace of clubs and the two of hearts, the dealer the ace of
  spades and the two of diamonds.  \<open>demo_rest\<close> is the shoe below the first seven cards.
\<close>

definition demo_rest :: "card list" where
  "demo_rest = drop 8 buildSingleDeck @ [hd buildSingleDeck]"

definition demo_dealt :: game where
  "demo_dealt =
     \<lparr>dealer =
        \<lparr>shoe =
           \<lparr>numDecks = 1, penetration = 3 / 4,
            cards = twoClubs # twoSpades # demo_rest,
            totalCards = 52, discardPile = [aceDiamonds],
            rnd = (\<lambda>k. 0), rndPos = 51\<rparr>,
         dealerHitsSoft17 = False\<rparr>,
      state = PLAYER_TURN,
      playerHands =
        [\<lparr>hand_cards = [aceClubs, twoHearts], settled = False,
          bet = Num 10, isDealerHand = False\<rparr>],
      dealerHand =
        Some \<lparr>hand_cards = [aceSpades, twoDiamonds], settled = False,
              bet = Num 0, isDealerHand = True\<rparr>,
      activeHandIdx = 0, results = []\<rparr>"


text \<open>
  The end of that round when the player stands on 13: the dealer draws the two of clubs
  and the two of spades, stands on soft 17 and wins.
\<close>

definition demo_over :: game where
  "demo_over =
     \<lparr>dealer =
        \<lparr>shoe =
           \<lparr>numDecks = 1, penetration = 3 / 4, cards = demo_rest, totalCards = 52,
            discardPile =
              [aceDiamonds, aceClubs, twoHearts,
               aceSpades, twoDiamonds, twoClubs,
               twoSpades],
            rnd = (\<lambda>k. 0), rndPos = 51\<rparr>,
         dealerHitsSoft17 = False\<rparr>,
      state = GAME_OVER,
      playerHands =
        [\<lparr>hand_cards = [aceClubs, twoHearts], settled = True,
          bet = Num 10, isDealerHand = False\<rparr>],
      dealerHand =
        Some \<lparr>hand_cards = [aceSpades, twoDiamonds, twoClubs,
                            twoSpades],
              settled = True, bet = Num 0, isDealerHand = True\<rparr>,
      activeHandIdx = 1,
      results =
        [\<lparr>res_hand = \<lparr>hand_cards = [aceClubs, twoHearts], settled = True,
                       bet = Num 10, isDealerHand = False\<rparr>,
          outcome = LOSE, payout = -1, net = Num (-10)\<rparr>]\<rparr>"

text \<open>
  A one-deck game whose shuffle leaves the third card of the shoe in place (the random
  number of the step for position 3 is 3/4, all others are 0): the player is dealt the
  pair of aces of clubs and spades.  \<open>pair_dealt\<close> is the state after a bet of 10,
  \<open>pair_split\<close> the state after the split.
\<close>

definition pair_game :: game where
  "pair_game = createGame 1 (3 / 4) False (\<lambda>k. if k = 48 then 3 / 4 else 0)"

definition pair_dealt :: game where
  "pair_dealt =
     \<lparr>dealer =
        \<lparr>shoe =
           \<lparr>numDecks = 1, penetration = 3 / 4,
            cards = twoClubs # twoSpades # demo_rest,
            totalCards = 52, discardPile = [aceDiamonds],
            rnd = (\<lambda>k. if k = 48 then 3 / 4 else 0), rndPos = 51\<rparr>,
         dealerHitsSoft17 = False\<rparr>,
      state = PLAYER_TURN,
      playerHands =
        [\<lparr>hand_cards = [aceClubs, aceSpades], settled = False, bet = Num 10,
          isDealerHand = False\<rparr>],
      dealerHand =
        Some \<lparr>hand_cards = [twoHearts, twoDiamonds], settled = False, bet = Num 0,
              isDealerHand = True\<rparr>,
      activeHandIdx = 0, results = []\<rparr>"


text \<open>A hand of at most \<open>n\<close> cards, all of them as the rank table makes them.\<close>

definition hand_within :: "nat \<Rightarrow> hand \<Rightarrow> bool" where
  "hand_within n h = (length (hand_cards h) \<le> n \<and> list_all valid_card (hand_cards h))"

text \<open>
  Two more one-deck games.  In \<open>bj_game\<close> the shuffle puts the king of spades in
  position 3 (random numbers 3/52 at the first step and 3/4 at the step for position 3):
  the player is dealt a natural, the dealer the twos of hearts and diamonds.  In
  \<open>nat_game\<close> it puts the king of spades in position 4 (random numbers 1/13 and 4/5):
  the dealer is dealt a natural, the player the ace of clubs and the two of diamonds.
  \<open>bj_over\<close> is the state of \<open>bj_game\<close> after a bet of 10.
\<close>

definition bj_game :: game where
  "bj_game =
     createGame 1 (3 / 4) False (\<lambda>k. if k = 0 then 3 / 52 else if k = 48 then 3 / 4 else 0)"

definition bj_rest :: "card list" where
  "bj_rest = take 43 (drop 8 buildSingleDeck) @ [aceHearts, aceSpades]"

definition bj_over :: game where
  "bj_over =
     \<lparr>dealer =
        \<lparr>shoe =
           \<lparr>numDecks = 1, penetration = 3 / 4,
            cards = twoClubs # twoSpades # bj_rest,
            totalCards = 52,
            discardPile = [aceDiamonds, aceClubs, kingSpades, twoHearts, twoDiamonds],
            rnd = (\<lambda>k. if k = 0 then 3 / 52 else if k = 48 then 3 / 4 else 0),
            rndPos = 51\<rparr>,
         dealerHitsSoft17 = False\<rparr>,
      state = GAME_OVER,
      playerHands =
        [\<lparr>hand_cards = [aceClubs, kingSpades], settled = False, bet = Num 10,
          isDealerHand = False\<rparr>],
      dealerHand =
        Some \<lparr>hand_cards = [twoHearts, twoDiamonds], settled = False, bet = Num 0,
              isDealerHand = True\<rparr>,
      activeHandIdx = 0,
      results =
        [\<lparr>res_hand = \<lparr>hand_cards = [aceClubs, kingSpades], settled = False, bet = Num 10,
                       isDealerHand = False\<rparr>,
          outcome = BLACKJACK, payout = 3 / 2, net = Num 15\<rparr>]\<rparr>"

definition nat_game :: game where
  "nat_game =
     createGame 1 (3 / 4) False (\<lambda>k. if k = 0 then 1 / 13 else if k = 47 then 4 / 5 else 0)"

definition nat_rest :: "card list" where
  "nat_rest = take 43 (drop 8 buildSingleDeck) @ [aceHearts, twoHearts]"

section \<open>Sequences of rounds\<close>

text \<open>
  \<open>completeRounds g acts\<close>: along the run of \<open>acts\<close> from \<open>g\<close>, \<open>newRound\<close> is only
  called when no round is under way, that is before a bet or after a settlement.  (The
  source accepts \<open>newRound\<close> in every state; called during a round it drops the hands
  with their cards.)
\<close>

fun completeRounds :: "game \<Rightarrow> action list \<Rightarrow> bool" where
  "completeRounds g [] = True"
| "completeRounds g (a # as) =
     ((case a of NewRound \<Rightarrow> state g = GAME_OVER \<or> state g = BETTING | _ \<Rightarrow> True)
      \<and> (case perform a g of None \<Rightarrow> True | Some r \<Rightarrow> completeRounds (final r) as))"

text \<open>
  The invariant of the round machine between two actions: it is in one of the three
  states in which an action can find it, with a dealer hand and an active hand while the
  players act, and the cards of the shoe and of the hands in play number \<open>n\<close>.
\<close>

definition round_inv :: "nat \<Rightarrow> game \<Rightarrow> bool" where
  "round_inv n g =
     ((state g = BETTING \<or> state g = GAME_OVER
       \<or> (state g = PLAYER_TURN \<and> dealerHand g \<noteq> None
           \<and> activeHandIdx g < length (playerHands g)))
      \<and> shoe_count (shoe (dealer g)) + inPlay g = n)"

text \<open>
  A dead table: the players act, every hand from the active one on is unsettled and
  holds at most one card, the dealer hand holds none, and neither pile of the shoe holds
  a card.
\<close>

definition dead_table :: "game \<Rightarrow> bool" where
  "dead_table g =
     (state g = PLAYER_TURN \<and> activeHandIdx g < length (playerHands g)
      \<and> list_all (hand_within 1) (playerHands g)
      \<and> list_all (\<lambda>h. \<not> settled h) (drop (activeHandIdx g) (playerHands g))
      \<and> (case dealerHand g of None \<Rightarrow> False | Some dh \<Rightarrow> hand_cards dh = [])
      \<and> shoe_count (shoe (dealer g)) = 0)"

section \<open>Verified properties\<close>

lemmas named_cards =
  aceClubs_def aceDiamonds_def aceHearts_def aceSpades_def twoClubs_def
  twoDiamonds_def twoHearts_def twoSpades_def fiveClubs_def fiveSpades_def
  sixDiamonds_def sixHearts_def eightClubs_def nineClubs_def nineHearts_def
  tenHearts_def tenSpades_def jackClubs_def queenClubs_def queenHearts_def
  kingHearts_def kingSpades_def

subsection \<open>Hand evaluation\<close>

lemma sum_cards_eq:
  "sum_cards cs t a = (t + sum_list (map card_value cs), a + length (filter isAce cs))"
  by (induction cs arbitrary: t a) auto

lemma reduce_aces_spec:
  "\<exists>k\<le>a. reduce_aces t a = (t - 10 * int k, a - k)
       \<and> (k < a \<longrightarrow> t - 10 * int k \<le> 21)
       \<and> (\<forall>j<k. t - 10 * int j > 21)"
proof (induction t a rule: reduce_aces.induct)
  case (1 t a)
  show ?case
  proof (cases "t > 21 \<and> a > 0")
    case True
    with 1 obtain k where k: "k \<le> a - 1"
      "reduce_aces (t - 10) (a - 1) = (t - 10 - 10 * int k, a - 1 - k)"
      "k < a - 1 \<longrightarrow> t - 10 - 10 * int k \<le> 21"
      "\<forall>j<k. t - 10 - 10 * int j > 21" by blast
    have "\<forall>j<Suc k. t - 10 * int j > 21"
    proof (intro allI impI)
      fix j assume "j < Suc k"
      show "t - 10 * int j > 21"
      proof (cases j)
        case 0 with True show ?thesis by simp
      next
        case (Suc j')
        with \<open>j < Suc k\<close> k(4) have "t - 10 - 10 * int j' > 21" by simp
        with Suc show ?thesis by simp
      qed
    qed
    moreover have "reduce_aces t a = (t - 10 * int (Suc k), a - Suc k)"
      using True k(2) reduce_aces.simps[of t a] by auto
    moreover have "Suc k \<le> a" using True k(1) by linarith
    moreover have "Suc k < a \<longrightarrow> t - 10 * int (Suc k) \<le> 21" using k(3) by auto
    ultimately show ?thesis by blast
  next
    case False
    then have "reduce_aces t a = (t, a)" using reduce_aces.simps[of t a] by auto
    with False show ?thesis by (intro exI[of _ 0]) auto
  qed
qed

lemma evaluate_reduction:
  "\<exists>k \<le> length (filter isAce cs).
       fst (evaluate cs) = sum_list (map card_value cs) - 10 * int k
     \<and> snd (evaluate cs) = (k < length (filter isAce cs))
     \<and> (k < length (filter isAce cs) \<longrightarrow> sum_list (map card_value cs) - 10 * int k \<le> 21)
     \<and> (\<forall>j<k. sum_list (map card_value cs) - 10 * int j > 21)"
proof -
  obtain k where k: "k \<le> length (filter isAce cs)"
    "reduce_aces (sum_list (map card_value cs)) (length (filter isAce cs))
       = (sum_list (map card_value cs) - 10 * int k, length (filter isAce cs) - k)"
    "k < length (filter isAce cs) \<longrightarrow> sum_list (map card_value cs) - 10 * int k \<le> 21"
    "\<forall>j<k. sum_list (map card_value cs) - 10 * int j > 21"
    using reduce_aces_spec by blast
  have "evaluate cs = (sum_list (map card_value cs) - 10 * int k, k < length (filter isAce cs))"
    using k(1) by (auto simp: evaluate_def sum_cards_eq k(2))
  with k show ?thesis by (intro exI[of _ k]) simp
qed

text \<open>
  C1.  For every list of cards, with \<open>s\<close> the sum of the base values (an ace counts 11)
  and \<open>a\<close> the number of aces, \<open>evaluate\<close> returns \<open>s - 10 * k\<close> for a number
  \<open>k \<le> a\<close> of reduced aces: every one of the \<open>k\<close> reductions was made while the running
  total \<open>s - 10 * j\<close> exceeded 21, the reductions stop before the aces run out only when
  the total is at most 21, and \<open>soft\<close> is true exactly when an ace is left unreduced
  (\<open>k < a\<close>).  In particular \<open>{A, A, 9}\<close> evaluates to 21 soft, \<open>{A, A, A}\<close> to 13 soft and
  \<open>{10, 6, A}\<close> to hard 17.
\<close>

theorem evaluate_ace_reduction:
  "(\<exists>k \<le> length (filter isAce cs).
       fst (evaluate cs) = sum_list (map card_value cs) - 10 * int k
     \<and> snd (evaluate cs) = (k < length (filter isAce cs))
     \<and> (k < length (filter isAce cs) \<longrightarrow> sum_list (map card_value cs) - 10 * int k \<le> 21)
     \<and> (\<forall>j<k. sum_list (map card_value cs) - 10 * int j > 21))
   \<and> evaluate [aceSpades, aceHearts, nineClubs] = (21, True)
   \<and> evaluate [aceSpades, aceHearts, aceClubs] = (13, True)
   \<and> evaluate [tenSpades, sixHearts, aceClubs] = (17, False)"
proof -
  have "evaluate [aceSpades, aceHearts, nineClubs] = (21, True)"
    by code_simp
  moreover
  have "evaluate [aceSpades, aceHearts, aceClubs] = (13, True)"
    by code_simp
  moreover
  have "evaluate [tenSpades, sixHearts, aceClubs] = (17, False)"
    by code_simp
  ultimately show ?thesis using evaluate_reduction[of cs] by blast
qed

theorem evaluate_ace_reduction_witness:
  "\<exists>k \<le> 2.
       fst (evaluate [aceSpades, aceHearts, nineClubs])
         = 31 - 10 * int k
     \<and> snd (evaluate [aceSpades, aceHearts, nineClubs])
         = (k < 2)
     \<and> (k < 2 \<longrightarrow> 31 - 10 * int k \<le> 21)
     \<and> (\<forall>j<k. 31 - 10 * int j > 21)"
  using evaluate_ace_reduction
          [of "[aceSpades, aceHearts, nineClubs]"]
  by (simp add: named_cards card_of_def createCard_def RANKS_def isAce_def)

subsection \<open>Outcome of a hand against the dealer\<close>

text \<open>
  C2.  \<open>compareHands\<close> decides by the first test that applies: a busted player loses
  (payout -1); otherwise a player blackjack pushes (0) against a dealer blackjack and
  is paid 1.5 against anything else; otherwise a busted dealer pays 1 (DEALER_BUST);
  otherwise the greater total wins (WIN, 1), the smaller loses (LOSE, -1) and equal
  totals push (0).
\<close>

theorem compareHands_decision_order:
  "(isBusted p \<longrightarrow> compareHands p d = (LOSE, -1)) \<and>
   (\<not> isBusted p \<and> isBlackjack p \<and> isBlackjack d \<longrightarrow> compareHands p d = (PUSH, 0)) \<and>
   (\<not> isBusted p \<and> isBlackjack p \<and> \<not> isBlackjack d
      \<longrightarrow> compareHands p d = (BLACKJACK, 3 / 2)) \<and>
   (\<not> isBusted p \<and> \<not> isBlackjack p \<and> isBusted d
      \<longrightarrow> compareHands p d = (DEALER_BUST, 1)) \<and>
   (\<not> isBusted p \<and> \<not> isBlackjack p \<and> \<not> isBusted d \<and> hand_total p > hand_total d
      \<longrightarrow> compareHands p d = (WIN, 1)) \<and>
   (\<not> isBusted p \<and> \<not> isBlackjack p \<and> \<not> isBusted d \<and> hand_total p < hand_total d
      \<longrightarrow> compareHands p d = (LOSE, -1)) \<and>
   (\<not> isBusted p \<and> \<not> isBlackjack p \<and> \<not> isBusted d \<and> hand_total p = hand_total d
      \<longrightarrow> compareHands p d = (PUSH, 0))"
  by (simp add: compareHands_def Let_def)

theorem compareHands_decision_order_witness:
  "isBusted (hand_of [tenSpades, nineHearts, fiveClubs])
   \<and> compareHands (hand_of [tenSpades, nineHearts, fiveClubs])
        (hand_of [tenHearts, eightClubs]) = (LOSE, -1)
   \<and> isBlackjack (hand_of [aceSpades, kingHearts])
   \<and> isBlackjack (hand_of [aceClubs, queenClubs])
   \<and> compareHands (hand_of [aceSpades, kingHearts])
        (hand_of [aceClubs, queenClubs]) = (PUSH, 0)
   \<and> \<not> isBlackjack (hand_of [tenHearts, nineClubs, twoSpades])
   \<and> hand_total (hand_of [tenHearts, nineClubs, twoSpades]) = 21
   \<and> compareHands (hand_of [aceSpades, kingHearts])
        (hand_of [tenHearts, nineClubs, twoSpades])
        = (BLACKJACK, 3 / 2)
   \<and> compareHands (hand_of [tenSpades, nineHearts])
        (hand_of [tenHearts, nineClubs, fiveSpades])
        = (DEALER_BUST, 1)
   \<and> compareHands (hand_of [tenSpades, nineHearts])
        (hand_of [tenHearts, eightClubs]) = (WIN, 1)
   \<and> compareHands (hand_of [tenHearts, eightClubs])
        (hand_of [tenSpades, nineHearts]) = (LOSE, -1)
   \<and> compareHands (hand_of [tenSpades, kingHearts])
        (hand_of [queenHearts, jackClubs]) = (PUSH, 0)"
proof -
  let ?h24 = "hand_of [tenSpades, nineHearts, fiveClubs]"
  let ?d24 = "hand_of [tenHearts, nineClubs, fiveSpades]"
  let ?h18 = "hand_of [tenHearts, eightClubs]"
  let ?h19 = "hand_of [tenSpades, nineHearts]"
  let ?bj1 = "hand_of [aceSpades, kingHearts]"
  let ?bj2 = "hand_of [aceClubs, queenClubs]"
  let ?d21 = "hand_of [tenHearts, nineClubs, twoSpades]"
  let ?p20 = "hand_of [tenSpades, kingHearts]"
  let ?d20 = "hand_of [queenHearts, jackClubs]"
  have b24: "isBusted ?h24" by code_simp
  have bj1: "\<not> isBusted ?bj1" "isBlackjack ?bj1" by code_simp+
  have bj2: "isBlackjack ?bj2" by code_simp
  have d21: "\<not> isBlackjack ?d21" "hand_total ?d21 = 21" by code_simp+
  have h19: "\<not> isBusted ?h19" "\<not> isBlackjack ?h19" "hand_total ?h19 = 19" by code_simp+
  have d24: "isBusted ?d24" by code_simp
  have h18: "\<not> isBusted ?h18" "\<not> isBlackjack ?h18" "hand_total ?h18 = 18" by code_simp+
  have p20: "\<not> isBusted ?p20" "\<not> isBlackjack ?p20" "hand_total ?p20 = 20" by code_simp+
  have d20: "\<not> isBusted ?d20" "hand_total ?d20 = 20" by code_simp+
  have r1: "compareHands ?h24 ?h18 = (LOSE, -1)"
    using compareHands_decision_order[of ?h24 ?h18] b24 by blast
  have r2: "compareHands ?bj1 ?bj2 = (PUSH, 0)"
    using compareHands_decision_order[of ?bj1 ?bj2] bj1 bj2 by blast
  have r3: "compareHands ?bj1 ?d21 = (BLACKJACK, 3 / 2)"
    using compareHands_decision_order[of ?bj1 ?d21] bj1 d21(1) by blast
  have r4: "compareHands ?h19 ?d24 = (DEALER_BUST, 1)"
    using compareHands_decision_order[of ?h19 ?d24] h19 d24 by blast
  have r5: "compareHands ?h19 ?h18 = (WIN, 1)"
    using compareHands_decision_order[of ?h19 ?h18] h19 h18 by simp
  have r6: "compareHands ?h18 ?h19 = (LOSE, -1)"
    using compareHands_decision_order[of ?h18 ?h19] h19 h18 by simp
  have r7: "compareHands ?p20 ?d20 = (PUSH, 0)"
    using compareHands_decision_order[of ?p20 ?d20] p20 d20 by simp
  show ?thesis
    using b24 bj1 bj2 d21 r1 r2 r3 r4 r5 r6 r7 by blast
qed

subsection \<open>Shuffling and drawing\<close>

lemma Math_random_range: "0 \<le> Math_random r p \<and> Math_random r p < 1"
  by (simp add: Math_random_def frac_lt_1)

lemma random_index_le: "nat \<lfloor>Math_random r p * (of_nat (Suc i) + 1)\<rfloor> \<le> Suc i"
proof -
  have "Math_random r p * (of_nat (Suc i) + 1) < of_nat (Suc i) + 1"
    using Math_random_range[of r p] by (simp add: mult_less_cancel_right2 add_pos_nonneg)
  then have "\<lfloor>Math_random r p * (of_nat (Suc i) + 1)\<rfloor> < int (Suc i) + 1"
    by (simp add: floor_less_iff)
  then show ?thesis by linarith
qed

lemma fy_loop_length: "length (fst (fy_loop i r p arr)) = length arr"
  by (induction i arbitrary: p arr) (simp_all add: Let_def)

lemma fy_loop_set: "i < length arr \<Longrightarrow> set (fst (fy_loop i r p arr)) = set arr"
proof (induction i arbitrary: p arr)
  case 0
  then show ?case by simp
next
  case (Suc i)
  let ?j = "nat \<lfloor>Math_random r p * (of_nat (Suc i) + 1)\<rfloor>"
  have j: "?j < length arr" using random_index_le[of r p i] Suc.prems by linarith
  have "set (arr[Suc i := arr ! ?j, ?j := arr ! Suc i]) = set arr"
    using set_swap[OF Suc.prems j] by simp
  moreover have "i < length (arr[Suc i := arr ! ?j, ?j := arr ! Suc i])" using Suc.prems by simp
  ultimately show ?case using Suc.IH[of "arr[Suc i := arr ! ?j, ?j := arr ! Suc i]" "Suc p"]
    by (simp add: Let_def)
qed

lemma fisherYatesShuffle_length: "length (fst (fisherYatesShuffle r p arr)) = length arr"
  by (simp add: fisherYatesShuffle_def fy_loop_length)

lemma fisherYatesShuffle_set: "set (fst (fisherYatesShuffle r p arr)) = set arr"
proof (cases arr)
  case Nil
  then show ?thesis by (simp add: fisherYatesShuffle_def)
next
  case (Cons a as)
  then show ?thesis by (simp add: fisherYatesShuffle_def fy_loop_set)
qed

lemma draw_eq:
  "draw n d =
     (take n (cards (if needsReshuffle d then reshuffle d else d)),
      (if needsReshuffle d then reshuffle d else d)
        \<lparr>cards := drop n (cards (if needsReshuffle d then reshuffle d else d))\<rparr>)"
  by (simp add: draw_def Let_def)

lemma reshuffle_fields:
  "numDecks (reshuffle d) = numDecks d" "penetration (reshuffle d) = penetration d"
  "rnd (reshuffle d) = rnd d" "discardPile (reshuffle d) = []"
  "length (cards (reshuffle d)) = length (cards d) + length (discardPile d)"
  "set (cards (reshuffle d)) = set (cards d) \<union> set (discardPile d)"
proof -
  obtain cs' p' where s: "fisherYatesShuffle (rnd d) (rndPos d) (cards d @ discardPile d) = (cs', p')"
    by (cases "fisherYatesShuffle (rnd d) (rndPos d) (cards d @ discardPile d)")
  have r: "reshuffle d =
      d\<lparr>cards := cs', discardPile := [], totalCards := length (cards d @ discardPile d), rndPos := p'\<rparr>"
    by (simp add: reshuffle_def Let_def s)
  have l: "length cs' = length (cards d @ discardPile d)" "set cs' = set (cards d @ discardPile d)"
    using fisherYatesShuffle_length[of "rnd d" "rndPos d" "cards d @ discardPile d"]
          fisherYatesShuffle_set[of "rnd d" "rndPos d" "cards d @ discardPile d"] s by simp_all
  show "numDecks (reshuffle d) = numDecks d" "penetration (reshuffle d) = penetration d"
    "rnd (reshuffle d) = rnd d" "discardPile (reshuffle d) = []"
    by (simp_all add: r)
  show "length (cards (reshuffle d)) = length (cards d) + length (discardPile d)"
    using l(1) by (simp add: r)
  show "set (cards (reshuffle d)) = set (cards d) \<union> set (discardPile d)"
    using l(2) by (simp add: r)
qed

lemma reshuffle_count: "shoe_count (reshuffle d) = shoe_count d"
  by (simp add: shoe_count_def reshuffle_fields)

lemma reshuffle_valid: "shoe_valid (reshuffle d) = shoe_valid d"
  by (auto simp: shoe_valid_def list_all_iff reshuffle_fields)

lemma draw_fields:
  "numDecks (snd (draw n d)) = numDecks d" "penetration (snd (draw n d)) = penetration d"
  "rnd (snd (draw n d)) = rnd d"
  by (simp_all add: draw_eq reshuffle_fields)

lemma draw_count:
  "length (fst (draw n d)) + shoe_count (snd (draw n d)) = shoe_count d"
  using reshuffle_count[of d]
  by (auto simp: draw_eq shoe_count_def)

lemma draw_valid:
  "shoe_valid d \<Longrightarrow> list_all valid_card (fst (draw n d)) \<and> shoe_valid (snd (draw n d))"
proof -
  assume v: "shoe_valid d"
  let ?d1 = "if needsReshuffle d then reshuffle d else d"
  have v1: "shoe_valid ?d1" using v by (simp add: reshuffle_valid)
  have "set (take n (cards ?d1)) \<subseteq> set (cards ?d1)" "set (drop n (cards ?d1)) \<subseteq> set (cards ?d1)"
    by (rule set_take_subset, rule set_drop_subset)
  with v1 have "list_all valid_card (take n (cards ?d1))"
    "list_all valid_card (drop n (cards ?d1) @ discardPile ?d1)"
    unfolding shoe_valid_def list_all_iff by auto
  then show ?thesis by (simp add: draw_eq shoe_valid_def)
qed

lemma draw_length_le: "length (fst (draw n d)) \<le> n"
  by (simp add: draw_eq)

lemma burn_fields:
  "numDecks (snd (burn n d)) = numDecks d" "penetration (snd (burn n d)) = penetration d"
  "rnd (snd (burn n d)) = rnd d"
  "shoe_count (snd (burn n d)) = shoe_count d"
  "shoe_valid (snd (burn n d)) = shoe_valid d"
proof -
  have "set (take n (cards d)) \<union> set (drop n (cards d)) = set (cards d)"
    by (metis append_take_drop_id set_append)
  then show "shoe_valid (snd (burn n d)) = shoe_valid d"
    by (auto simp: burn_def Let_def shoe_valid_def list_all_iff)
qed (simp_all add: burn_def Let_def shoe_count_def)

lemma draw_no_reshuffle:
  "\<not> needsReshuffle d \<Longrightarrow> cards d = c # cs \<Longrightarrow> draw 1 d = ([c], d\<lparr>cards := cs\<rparr>)"
  by (simp add: draw_eq)

lemma hit_some:
  "\<not> needsReshuffle (shoe dl) \<Longrightarrow> cards (shoe dl) = c # cs \<Longrightarrow>
   hit h dl = (Some c, addCards [c] h, dl\<lparr>shoe := (shoe dl)\<lparr>cards := cs\<rparr>\<rparr>)"
  using draw_no_reshuffle[of "shoe dl" c cs] by (simp add: hit_def)

lemma hit_count:
  "hand_size (fst (snd (hit h dl))) + shoe_count (shoe (snd (snd (hit h dl))))
     = hand_size h + shoe_count (shoe dl)"
  using draw_count[of 1 "shoe dl"] draw_length_le[of 1 "shoe dl"]
  by (auto simp: hit_def hand_size_def addCards_def split: prod.splits list.splits)


lemma hit_valid:
  "shoe_valid (shoe dl) \<Longrightarrow> list_all valid_card (hand_cards h) \<Longrightarrow>
   shoe_valid (shoe (snd (snd (hit h dl)))) \<and> list_all valid_card (hand_cards (fst (snd (hit h dl))))"
  using draw_valid[of "shoe dl" 1]
  by (auto simp: hit_def addCards_def split: prod.splits list.splits)

subsection \<open>The dealer loop\<close>

lemma hand_total_settle [simp]: "hand_total (hand_settle h) = hand_total h"
  by (simp add: hand_total_def hand_settle_def)

lemma playDealerHand_returns:
  "\<not> shouldDealerHit (snd (hits k (h, dl))) (fst (hits k (h, dl))) \<Longrightarrow>
   (\<And>i. i < k \<Longrightarrow> shouldDealerHit (snd (hits i (h, dl))) (fst (hits i (h, dl)))) \<Longrightarrow>
   playDealerHand dl h =
     Some (hand_total (fst (hits k (h, dl))), hand_settle (fst (hits k (h, dl))), snd (hits k (h, dl)))"
proof (induction k arbitrary: h dl)
  case 0
  then show ?case by (subst playDealerHand.simps) simp
next
  case (Suc k)
  have h0: "shouldDealerHit dl h" using Suc.prems(2)[of 0] by simp
  let ?h = "fst (snd (hit h dl))" and ?dl = "snd (snd (hit h dl))"
  have eq: "\<And>n. hits (Suc n) (h, dl) = hits n (?h, ?dl)" by simp
  have "playDealerHand ?dl ?h =
     Some (hand_total (fst (hits k (?h, ?dl))), hand_settle (fst (hits k (?h, ?dl))), snd (hits k (?h, ?dl)))"
  proof (rule Suc.IH)
    show "\<not> shouldDealerHit (snd (hits k (?h, ?dl))) (fst (hits k (?h, ?dl)))"
      using Suc.prems(1) by simp
  next
    fix i assume "i < k"
    then show "shouldDealerHit (snd (hits i (?h, ?dl))) (fst (hits i (?h, ?dl)))"
      using Suc.prems(2)[of "Suc i"] by simp
  qed
  then show ?case using h0 by (subst playDealerHand.simps) simp
qed

lemma playDealerHand_result:
  assumes "playDealerHand dl h = Some r"
  shows "\<exists>k. (\<forall>i<k. shouldDealerHit (snd (hits i (h, dl))) (fst (hits i (h, dl))))
      \<and> \<not> shouldDealerHit (snd (hits k (h, dl))) (fst (hits k (h, dl)))
      \<and> r = (hand_total (fst (hits k (h, dl))), hand_settle (fst (hits k (h, dl))), snd (hits k (h, dl)))"
  using assms
proof (induction rule: playDealerHand.raw_induct[rotated 1, consumes 1, case_names step])
  case (step pdh dl h r)
  show ?case
  proof (cases "shouldDealerHit dl h")
    case False
    with step(2) have "r = (hand_total h, hand_settle h, dl)" by simp
    with False show ?thesis by (intro exI[of _ 0]) simp
  next
    case True
    let ?h = "fst (snd (hit h dl))" and ?dl = "snd (snd (hit h dl))"
    from True step(2) have "pdh ?dl ?h = Some r" by simp
    from step(1)[OF this] obtain k where kk:
      "(\<forall>i<k. shouldDealerHit (snd (hits i (?h, ?dl))) (fst (hits i (?h, ?dl))))
       \<and> \<not> shouldDealerHit (snd (hits k (?h, ?dl))) (fst (hits k (?h, ?dl)))
       \<and> r = (hand_total (fst (hits k (?h, ?dl))), hand_settle (fst (hits k (?h, ?dl))), snd (hits k (?h, ?dl)))"
      ..
    note k = conjunct1[OF kk] conjunct1[OF conjunct2[OF kk]] conjunct2[OF conjunct2[OF kk]]
    have "\<forall>i<Suc k. shouldDealerHit (snd (hits i (h, dl))) (fst (hits i (h, dl)))"
    proof (intro allI impI)
      fix i assume i: "i < Suc k"
      show "shouldDealerHit (snd (hits i (h, dl))) (fst (hits i (h, dl)))"
      proof (cases i)
        case 0 then show ?thesis using True by simp
      next
        case (Suc i')
        with i have "i' < k" by simp
        with k(1) have "shouldDealerHit (snd (hits i' (?h, ?dl))) (fst (hits i' (?h, ?dl)))" by blast
        then show ?thesis using Suc by simp
      qed
    qed
    moreover have "\<not> shouldDealerHit (snd (hits (Suc k) (h, dl))) (fst (hits (Suc k) (h, dl)))"
      using k(2) by simp
    moreover have "r = (hand_total (fst (hits (Suc k) (h, dl))), hand_settle (fst (hits (Suc k) (h, dl))), snd (hits (Suc k) (h, dl)))"
      using k(3) by simp
    ultimately show ?thesis by blast
  qed
qed

lemma playDealerHand_diverges:
  assumes "\<And>k. shouldDealerHit (snd (hits k (h, dl))) (fst (hits k (h, dl)))"
  shows "playDealerHand dl h = None"
proof (cases "playDealerHand dl h")
  case (Some r)
  from playDealerHand_result[OF this] assms show ?thesis by blast
qed simp

subsection \<open>Dealing\<close>

lemma shouldDealerHit_iff:
  "shouldDealerHit dl h \<longleftrightarrow>
     hand_total h < 17 \<or> (hand_total h = 17 \<and> isSoft h \<and> dealerHitsSoft17 dl)"
  by (auto simp: shouldDealerHit_def hand_value_def hand_total_def isSoft_def split: prod.splits)

lemma soft17_hand_value: "hand_total soft17_hand = 17 \<and> isSoft soft17_hand"
  by code_simp



lemma deal_to_hands_fields:
  "deal_to_hands hs d = (hs', d') \<Longrightarrow>
   length hs' = length hs \<and> map bet hs' = map bet hs
   \<and> map isDealerHand hs' = map isDealerHand hs"
proof (induction hs arbitrary: d hs' d')
  case Nil
  then show ?case by simp
next
  case (Cons h hs)
  obtain drawn d1 where d1: "draw 1 d = (drawn, d1)" by (cases "draw 1 d")
  obtain hs1 d2 where d2: "deal_to_hands hs d1 = (hs1, d2)" by (cases "deal_to_hands hs d1")
  from Cons.prems d1 d2 have "hs' = addCards drawn h # hs1" by simp
  with Cons.IH[OF d2] show ?case by (simp add: addCards_def)
qed

lemma deal_pass_fields:
  "deal_pass (hs, dh, d) = (hs', dh', d') \<Longrightarrow>
   length hs' = length hs \<and> map bet hs' = map bet hs
   \<and> map isDealerHand hs' = map isDealerHand hs
   \<and> bet dh' = bet dh \<and> isDealerHand dh' = isDealerHand dh"
  by (auto simp: deal_pass_def addCards_def split: prod.splits dest: deal_to_hands_fields)

lemma dealInitial_fields:
  assumes "dealInitial n bets dl = (hs, dh, dl')"
  shows "length hs = n \<and> map bet hs = map (bet_or_zero bets) [0..<n]
     \<and> map isDealerHand hs = replicate n False \<and> bet dh = Num 0 \<and> isDealerHand dh"
proof -
  let ?hs0 = "map (\<lambda>i. createHand False (bet_or_zero bets i)) [0..<n]"
  let ?dh0 = "createHand True (Num 0)"
  obtain burned dl1 where b: "burnCard dl = (burned, dl1)" by (cases "burnCard dl")
  obtain hs1 dh1 s1 where p1: "deal_pass (?hs0, ?dh0, shoe dl1) = (hs1, dh1, s1)"
    by (cases "deal_pass (?hs0, ?dh0, shoe dl1)")
  obtain hs2 dh2 s2 where p2: "deal_pass (hs1, dh1, s1) = (hs2, dh2, s2)"
    by (cases "deal_pass (hs1, dh1, s1)")
  from assms b p1 p2 have eq: "hs = hs2" "dh = dh2"
    by (simp_all add: dealInitial_def Let_def)
  have f0: "map bet ?hs0 = map (bet_or_zero bets) [0..<n]"
    "map isDealerHand ?hs0 = replicate n False"
    "bet ?dh0 = Num 0" "isDealerHand ?dh0" "length ?hs0 = n"
    by (simp_all add: createHand_def comp_def map_replicate_const)
  from deal_pass_fields[OF p1] deal_pass_fields[OF p2] f0 eq show ?thesis by simp
qed



text \<open>
  C10.  \<open>dealInitial\<close> has no failing branch, whatever the number of players and the
  list of bets: it creates as many player hands as asked; hand \<open>i\<close> carries \<open>bets[i]\<close>
  when that entry exists and is truthy, and 0 when the list is too short or the entry is
  zero or \<open>NaN\<close>; the dealer hand carries 0.
\<close>

theorem dealInitial_wagers:
  "length (fst (dealInitial n bets dl)) = n
   \<and> (\<forall>i<n. bet (fst (dealInitial n bets dl) ! i) =
          (if i < length bets \<and> bets ! i \<noteq> Num 0 \<and> bets ! i \<noteq> NaN then bets ! i else Num 0)
        \<and> \<not> isDealerHand (fst (dealInitial n bets dl) ! i))
   \<and> bet (fst (snd (dealInitial n bets dl))) = Num 0
   \<and> isDealerHand (fst (snd (dealInitial n bets dl)))"
proof -
  obtain hs dh dl' where d: "dealInitial n bets dl = (hs, dh, dl')"
    by (cases "dealInitial n bets dl")
  note f = dealInitial_fields[OF d]
  have t: "\<And>x. truthy x \<longleftrightarrow> x \<noteq> Num 0 \<and> x \<noteq> NaN"
  proof -
    fix x show "truthy x \<longleftrightarrow> x \<noteq> Num 0 \<and> x \<noteq> NaN" by (cases x) auto
  qed
  have "\<forall>i<n. bet (hs ! i) =
          (if i < length bets \<and> bets ! i \<noteq> Num 0 \<and> bets ! i \<noteq> NaN then bets ! i else Num 0)
        \<and> \<not> isDealerHand (hs ! i)"
  proof (intro allI impI)
    fix i assume i: "i < n"
    from f have len: "length hs = n" by simp
    have "bet (hs ! i) = map bet hs ! i" "isDealerHand (hs ! i) = map isDealerHand hs ! i"
      using i len by (simp_all only: nth_map)
    with f i have "bet (hs ! i) = bet_or_zero bets i" "\<not> isDealerHand (hs ! i)"
      by simp_all
    then show "bet (hs ! i) =
          (if i < length bets \<and> bets ! i \<noteq> Num 0 \<and> bets ! i \<noteq> NaN then bets ! i else Num 0)
        \<and> \<not> isDealerHand (hs ! i)"
      by (simp add: bet_or_zero_def t)
  qed
  with f d show ?thesis by simp
qed

theorem dealInitial_wagers_witness:
  "map bet (fst (dealInitial 4 [Num 5, NaN, Num 0] (dealer demo_game)))
     = [Num 5, Num 0, Num 0, Num 0]
   \<and> bet (fst (snd (dealInitial 4 [Num 5, NaN, Num 0] (dealer demo_game)))) = Num 0"
proof -
  let ?r = "dealInitial 4 [Num 5, NaN, Num 0] (dealer demo_game)"
  note w = dealInitial_wagers[of 4 "[Num 5, NaN, Num 0]" "dealer demo_game"]
  from w have len: "length (fst ?r) = 4" by blast
  from w have b: "\<And>i. i < 4 \<Longrightarrow> bet (fst ?r ! i) =
     (if i < length [Num 5, NaN, Num 0] \<and> [Num 5, NaN, Num 0] ! i \<noteq> Num 0
           \<and> [Num 5, NaN, Num 0] ! i \<noteq> NaN then [Num 5, NaN, Num 0] ! i else Num 0)"
    by blast
  have "map bet (fst ?r) = [Num 5, Num 0, Num 0, Num 0]"
  proof (rule nth_equalityI)
    show "length (map bet (fst ?r)) = length [Num 5, Num 0, Num 0, Num 0]" using len by simp
  next
    fix i assume "i < length (map bet (fst ?r))"
    with len have i: "i < 4" by simp
    then have "i = 0 \<or> i = 1 \<or> i = 2 \<or> i = 3" by auto
    with b[OF i] len show "map bet (fst ?r) ! i = [Num 5, Num 0, Num 0, Num 0] ! i"
      by auto
  qed
  with w show ?thesis by blast
qed

subsection \<open>Guards of the actions\<close>

lemma demo_game_state: "state demo_game = BETTING"
  by (simp add: demo_game_def createGame_def)

lemma demo_dealt_active:
  "state demo_dealt = PLAYER_TURN"
  "getActiveHand demo_dealt =
     Some \<lparr>hand_cards = [aceClubs, twoHearts], settled = False,
           bet = Num 10, isDealerHand = False\<rparr>"
  by (simp_all add: demo_dealt_def getActiveHand_def)




subsection \<open>A worked round\<close>

text \<open>
  The round played by \<open>demo_game\<close> with one player who bets 10 and stands: the
  shuffle, the deal (\<open>demo_dealt\<close>), the dealer play and the settlement
  (\<open>demo_over\<close>), each evaluated from the definitions.
\<close>

lemma buildSingleDeck_length: "length buildSingleDeck = 52"
  by code_simp

lemma demo_rest_length: "length demo_rest = 45"
  by code_simp

lemma demo_shuffle:
  "fisherYatesShuffle (\<lambda>k. 0) 0 buildSingleDeck =
     (aceDiamonds # aceClubs # aceSpades # twoHearts
      # twoDiamonds # twoClubs # twoSpades # demo_rest, 51)"
  by code_simp

lemma demo_game_eq:
  "demo_game =
     \<lparr>dealer =
        \<lparr>shoe =
           \<lparr>numDecks = 1, penetration = 3 / 4,
            cards = aceDiamonds # aceClubs # aceSpades
              # twoHearts # twoDiamonds # twoClubs
              # twoSpades # demo_rest,
            totalCards = 52, discardPile = [], rnd = (\<lambda>k. 0), rndPos = 51\<rparr>,
         dealerHitsSoft17 = False\<rparr>,
      state = BETTING, playerHands = [], dealerHand = None, activeHandIdx = 0, results = []\<rparr>"
  by (simp add: demo_game_def createGame_def createDealer_def createDeck_def reset_def
        demo_shuffle buildSingleDeck_length)

lemma dealInitial_one_player:
  assumes c: "cards (shoe dl) = c0 # c1 # c2 # c3 # c4 # rest"
    and t: "\<lfloor>of_nat (totalCards (shoe dl)) * (1 - penetration (shoe dl))\<rfloor> \<le> int (length rest)"
  shows "dealInitial (Suc 0) [b] dl =
     ([\<lparr>hand_cards = [c1, c3], settled = False, bet = bet_or_zero [b] 0, isDealerHand = False\<rparr>],
      \<lparr>hand_cards = [c2, c4], settled = False, bet = Num 0, isDealerHand = True\<rparr>,
      dl\<lparr>shoe := (shoe dl)\<lparr>cards := rest, discardPile := discardPile (shoe dl) @ [c0]\<rparr>\<rparr>)"
proof -
  obtain s h17 where dl: "dl = \<lparr>shoe = s, dealerHitsSoft17 = h17\<rparr>" by (cases dl)
  obtain n pen cs tc dp r rp where s: "s = \<lparr>numDecks = n, penetration = pen, cards = cs,
      totalCards = tc, discardPile = dp, rnd = r, rndPos = rp\<rparr>" by (cases s)
  from c dl s have cs: "cs = c0 # c1 # c2 # c3 # c4 # rest" by simp
  from t dl s have t': "\<lfloor>of_nat tc * (1 - pen)\<rfloor> \<le> int (length rest)" by simp
  let ?s = "\<lambda>xs. \<lparr>numDecks = n, penetration = pen, cards = xs,
      totalCards = tc, discardPile = dp @ [c0], rnd = r, rndPos = rp\<rparr>"
  have b: "burnCard dl = ([c0], \<lparr>shoe = ?s (c1 # c2 # c3 # c4 # rest), dealerHitsSoft17 = h17\<rparr>)"
    by (simp add: burnCard_def burn_def Let_def dl s cs)
  have d: "\<And>x xs. length rest \<le> length xs \<Longrightarrow> draw (Suc 0) (?s (x # xs)) = ([x], ?s xs)"
    using t' by (simp add: draw_eq needsReshuffle_def)
  let ?p0 = "createHand False (bet_or_zero [b] 0)" and ?dh0 = "createHand True (Num 0)"
  have p1: "deal_pass ([?p0], ?dh0, ?s (c1 # c2 # c3 # c4 # rest)) =
      ([addCards [c1] ?p0], addCards [c2] ?dh0, ?s (c3 # c4 # rest))"
    by (simp add: deal_pass_def d)
  have p2: "deal_pass ([addCards [c1] ?p0], addCards [c2] ?dh0, ?s (c3 # c4 # rest)) =
      ([addCards [c3] (addCards [c1] ?p0)], addCards [c4] (addCards [c2] ?dh0), ?s rest)"
    by (simp add: deal_pass_def d)
  show ?thesis
    by (simp add: dealInitial_def b p1 p2 Let_def) (simp add: addCards_def createHand_def dl s)
qed


lemma demo_player_hand:
  "\<not> isBlackjack \<lparr>hand_cards = [aceClubs, twoHearts], settled = False,
          bet = Num 10, isDealerHand = False\<rparr>"
  "\<not> isSettled \<lparr>hand_cards = [aceClubs, twoHearts], settled = False,
          bet = Num 10, isDealerHand = False\<rparr>"
  "\<not> isBusted \<lparr>hand_cards = [aceClubs, twoHearts], settled = True,
          bet = Num 10, isDealerHand = False\<rparr>"
  "isSettled \<lparr>hand_cards = [aceClubs, twoHearts], settled = True,
          bet = Num 10, isDealerHand = False\<rparr>"
  by code_simp+

lemma demo_dealer_hand:
  "\<not> isBlackjack \<lparr>hand_cards = [aceSpades, twoDiamonds], settled = False,
              bet = Num 0, isDealerHand = True\<rparr>"
  by code_simp

lemma demo_placeBets: "placeBets [Num 10] demo_game = Some (Returned demo_dealt)"
proof -
  let ?dl = "dealer demo_game"
  have c: "cards (shoe ?dl) = aceDiamonds # aceClubs # aceSpades
     # twoHearts # twoDiamonds # (twoClubs # twoSpades # demo_rest)"
    by (simp add: demo_game_eq)
  have t: "\<lfloor>of_nat (totalCards (shoe ?dl)) * (1 - penetration (shoe ?dl))\<rfloor>
      \<le> int (length (twoClubs # twoSpades # demo_rest))"
    by (simp add: demo_game_eq demo_rest_length)
  note d = dealInitial_one_player[OF c t, of "Num 10"]
  have s: "skip_loop [\<lparr>hand_cards = [aceClubs, twoHearts], settled = False,
          bet = Num 10, isDealerHand = False\<rparr>] 0 = 0"
    using demo_player_hand(2) by (subst skip_loop.simps) simp
  show ?thesis
    using demo_player_hand(1) demo_dealer_hand s
    by (simp add: placeBets_def d demo_game_state bet_or_zero_def skipSettledHands_def Let_def)
       (simp add: demo_game_eq demo_dealt_def)
qed


lemma demo_dealer_totals:
  "hand_total \<lparr>hand_cards = [aceSpades, twoDiamonds], settled = False,
              bet = Num 0, isDealerHand = True\<rparr> = 13"
  "hand_total \<lparr>hand_cards = [aceSpades, twoDiamonds, twoClubs],
              settled = False, bet = Num 0, isDealerHand = True\<rparr> = 15"
  "hand_total \<lparr>hand_cards = [aceSpades, twoDiamonds, twoClubs,
                            twoSpades],
              settled = False, bet = Num 0, isDealerHand = True\<rparr> = 17"
  by code_simp+

lemma demo_compare:
  "compareHands
     \<lparr>hand_cards = [aceClubs, twoHearts], settled = True,
       bet = Num 10, isDealerHand = False\<rparr>
     \<lparr>hand_cards = [aceSpades, twoDiamonds, twoClubs,
                    twoSpades],
       settled = True, bet = Num 0, isDealerHand = True\<rparr> = (LOSE, -1)"
  by code_simp

lemma demo_hits:
  "hits (Suc 0)
     (\<lparr>hand_cards = [aceSpades, twoDiamonds], settled = False, bet = Num 0,
        isDealerHand = True\<rparr>, dealer demo_dealt)
   = (\<lparr>hand_cards = [aceSpades, twoDiamonds, twoClubs], settled = False, bet = Num 0,
        isDealerHand = True\<rparr>,
      \<lparr>shoe = \<lparr>numDecks = 1, penetration = 3 / 4, cards = twoSpades # demo_rest,
               totalCards = 52, discardPile = [aceDiamonds], rnd = (\<lambda>k. 0), rndPos = 51\<rparr>,
        dealerHitsSoft17 = False\<rparr>)"
  "hits (Suc (Suc 0))
     (\<lparr>hand_cards = [aceSpades, twoDiamonds], settled = False, bet = Num 0,
        isDealerHand = True\<rparr>, dealer demo_dealt)
   = (\<lparr>hand_cards = [aceSpades, twoDiamonds, twoClubs, twoSpades], settled = False,
        bet = Num 0, isDealerHand = True\<rparr>,
      \<lparr>shoe = \<lparr>numDecks = 1, penetration = 3 / 4, cards = demo_rest,
               totalCards = 52, discardPile = [aceDiamonds], rnd = (\<lambda>k. 0), rndPos = 51\<rparr>,
        dealerHitsSoft17 = False\<rparr>)"
proof -
  let ?sh = "\<lambda>cs. \<lparr>numDecks = 1, penetration = 3 / 4, cards = cs, totalCards = 52,
               discardPile = [aceDiamonds], rnd = (\<lambda>k. 0), rndPos = 51\<rparr>"
  let ?dl = "\<lambda>cs. \<lparr>shoe = ?sh cs, dealerHitsSoft17 = False\<rparr>"
  let ?h0 = "\<lparr>hand_cards = [aceSpades, twoDiamonds], settled = False,
       bet = Num 0, isDealerHand = True\<rparr>"
  let ?h1 = "\<lparr>hand_cards = [aceSpades, twoDiamonds, twoClubs],
       settled = False, bet = Num 0, isDealerHand = True\<rparr>"
  let ?h2 = "\<lparr>hand_cards = [aceSpades, twoDiamonds, twoClubs, twoSpades],
       settled = False, bet = Num 0, isDealerHand = True\<rparr>"
  have n: "\<And>cs. 13 < length cs \<Longrightarrow> \<not> needsReshuffle (shoe (?dl cs))"
    by (simp add: needsReshuffle_def)
  have hit1: "hit ?h0 (?dl (twoClubs # twoSpades # demo_rest))
      = (Some twoClubs, ?h1, ?dl (twoSpades # demo_rest))"
    using hit_some[of "?dl (twoClubs # twoSpades # demo_rest)" twoClubs "twoSpades # demo_rest" ?h0]
      n[of "twoClubs # twoSpades # demo_rest"]
    by (simp add: demo_rest_length addCards_def)
  have hit2: "hit ?h1 (?dl (twoSpades # demo_rest)) = (Some twoSpades, ?h2, ?dl demo_rest)"
    using hit_some[of "?dl (twoSpades # demo_rest)" twoSpades demo_rest ?h1]
      n[of "twoSpades # demo_rest"]
    by (simp add: demo_rest_length addCards_def)
  have d: "dealer demo_dealt = ?dl (twoClubs # twoSpades # demo_rest)"
    by (simp add: demo_dealt_def)
  show "hits (Suc 0) (?h0, dealer demo_dealt) = (?h1, ?dl (twoSpades # demo_rest))"
    using hit1 by (simp add: d)
  show "hits (Suc (Suc 0)) (?h0, dealer demo_dealt) = (?h2, ?dl demo_rest)"
    using hit1 hit2 by (simp add: d)
qed

lemma demo_should_hit:
  "shouldDealerHit dl \<lparr>hand_cards = [aceSpades, twoDiamonds], settled = False, bet = Num 0,
        isDealerHand = True\<rparr>"
  "shouldDealerHit dl \<lparr>hand_cards = [aceSpades, twoDiamonds, twoClubs], settled = False,
        bet = Num 0, isDealerHand = True\<rparr>"
  "\<not> dealerHitsSoft17 dl \<Longrightarrow>
   \<not> shouldDealerHit dl \<lparr>hand_cards = [aceSpades, twoDiamonds, twoClubs, twoSpades],
        settled = False, bet = Num 0, isDealerHand = True\<rparr>"
  using demo_dealer_totals by (simp_all add: shouldDealerHit_iff)

lemma demo_dealer_play:
  "playDealerHand (dealer demo_dealt)
     \<lparr>hand_cards = [aceSpades, twoDiamonds], settled = False,
       bet = Num 0, isDealerHand = True\<rparr> =
   Some (17,
     \<lparr>hand_cards = [aceSpades, twoDiamonds, twoClubs, twoSpades],
       settled = True, bet = Num 0, isDealerHand = True\<rparr>,
     \<lparr>shoe = \<lparr>numDecks = 1, penetration = 3 / 4, cards = demo_rest, totalCards = 52,
               discardPile = [aceDiamonds], rnd = (\<lambda>k. 0), rndPos = 51\<rparr>,
      dealerHitsSoft17 = False\<rparr>)"
proof -
  let ?h0 = "\<lparr>hand_cards = [aceSpades, twoDiamonds], settled = False,
       bet = Num 0, isDealerHand = True\<rparr>"
  let ?dl = "dealer demo_dealt"
  have stop: "\<not> shouldDealerHit (snd (hits (Suc (Suc 0)) (?h0, ?dl))) (fst (hits (Suc (Suc 0)) (?h0, ?dl)))"
    using demo_should_hit(3)[of "snd (hits (Suc (Suc 0)) (?h0, ?dl))"]
    by (simp add: demo_hits del: hits.simps(2))
  have go: "\<And>i. i < Suc (Suc 0) \<Longrightarrow> shouldDealerHit (snd (hits i (?h0, ?dl))) (fst (hits i (?h0, ?dl)))"
  proof -
    fix i :: nat assume "i < Suc (Suc 0)"
    then have "i = 0 \<or> i = Suc 0" by auto
    then show "shouldDealerHit (snd (hits i (?h0, ?dl))) (fst (hits i (?h0, ?dl)))"
      using demo_should_hit(1,2) by (auto simp: demo_hits simp del: hits.simps(2))
  qed
  from playDealerHand_returns[of "Suc (Suc 0)" ?h0 ?dl, OF stop go]
  show ?thesis using demo_dealer_totals(3) by (simp add: demo_hits hand_settle_def del: hits.simps(2))
qed

lemma demo_playerStand: "playerStand demo_dealt = Some (Returned demo_over)"
proof -
  let ?p = "\<lparr>hand_cards = [aceClubs, twoHearts], settled = True, bet = Num 10,
             isDealerHand = False\<rparr>"
  have s: "skip_loop [?p] (Suc 0) = Suc 0"
    by (subst skip_loop.simps) simp
  have b: "beginDealerTurn (demo_dealt\<lparr>playerHands := [?p], activeHandIdx := Suc 0\<rparr>)
      = Some (Returned demo_over)"
    using demo_player_hand(3) demo_compare demo_dealer_play
    by (simp add: beginDealerTurn_def Let_def settle_def settleRound_def
          getCards_def discardCards_def discard_def getBet_def demo_dealt_def)
       (simp add: demo_over_def)
  have a: "advanceHand (demo_dealt\<lparr>playerHands := [?p]\<rparr>) = Some (Returned demo_over)"
    using s b by (simp add: advanceHand_def skipSettledHands_def Let_def demo_dealt_def)
  show ?thesis
    using a demo_dealt_active
    by (simp add: playerStand_def hand_settle_def) (simp add: demo_dealt_def)
qed

subsection \<open>The dealer policy\<close>

text \<open>
  C5.  The dealer hits exactly when the total is below 17, or is 17 and soft with
  \<open>dealerHitsSoft17\<close> set; so \<open>{A, 6}\<close> stands under S17 and hits under H17.
  \<open>playDealerHand\<close> returns exactly when some number \<open>k\<close> of hits leads to a hand on
  which the policy is false after it was true on every hand before; it then returns that
  hand marked settled, and the total of that hand.
\<close>

theorem dealer_policy:
  "(shouldDealerHit dl h \<longleftrightarrow>
      hand_total h < 17 \<or> (hand_total h = 17 \<and> isSoft h \<and> dealerHitsSoft17 dl))
   \<and> (shouldDealerHit dl soft17_hand \<longleftrightarrow> dealerHitsSoft17 dl)
   \<and> (playDealerHand dl h = Some r \<longleftrightarrow>
        (\<exists>k. (\<forall>i<k. shouldDealerHit (snd (hits i (h, dl))) (fst (hits i (h, dl))))
           \<and> \<not> shouldDealerHit (snd (hits k (h, dl))) (fst (hits k (h, dl)))
           \<and> r = (hand_total (fst (hits k (h, dl))),
                  (fst (hits k (h, dl)))\<lparr>settled := True\<rparr>,
                  snd (hits k (h, dl)))))"
proof (intro conjI)
  show "shouldDealerHit dl h \<longleftrightarrow>
      hand_total h < 17 \<or> (hand_total h = 17 \<and> isSoft h \<and> dealerHitsSoft17 dl)"
    by (rule shouldDealerHit_iff)
  show "shouldDealerHit dl soft17_hand \<longleftrightarrow> dealerHitsSoft17 dl"
    using soft17_hand_value by (simp add: shouldDealerHit_iff)
  show "playDealerHand dl h = Some r \<longleftrightarrow>
        (\<exists>k. (\<forall>i<k. shouldDealerHit (snd (hits i (h, dl))) (fst (hits i (h, dl))))
           \<and> \<not> shouldDealerHit (snd (hits k (h, dl))) (fst (hits k (h, dl)))
           \<and> r = (hand_total (fst (hits k (h, dl))),
                  (fst (hits k (h, dl)))\<lparr>settled := True\<rparr>,
                  snd (hits k (h, dl))))"
  proof
    assume "playDealerHand dl h = Some r"
    from playDealerHand_result[OF this] show "\<exists>k. (\<forall>i<k. shouldDealerHit (snd (hits i (h, dl))) (fst (hits i (h, dl))))
           \<and> \<not> shouldDealerHit (snd (hits k (h, dl))) (fst (hits k (h, dl)))
           \<and> r = (hand_total (fst (hits k (h, dl))),
                  (fst (hits k (h, dl)))\<lparr>settled := True\<rparr>,
                  snd (hits k (h, dl)))"
      by (simp add: hand_settle_def)
  next
    assume "\<exists>k. (\<forall>i<k. shouldDealerHit (snd (hits i (h, dl))) (fst (hits i (h, dl))))
           \<and> \<not> shouldDealerHit (snd (hits k (h, dl))) (fst (hits k (h, dl)))
           \<and> r = (hand_total (fst (hits k (h, dl))),
                  (fst (hits k (h, dl)))\<lparr>settled := True\<rparr>,
                  snd (hits k (h, dl)))"
    then obtain k where k:
      "(\<forall>i<k. shouldDealerHit (snd (hits i (h, dl))) (fst (hits i (h, dl))))
           \<and> \<not> shouldDealerHit (snd (hits k (h, dl))) (fst (hits k (h, dl)))
           \<and> r = (hand_total (fst (hits k (h, dl))),
                  (fst (hits k (h, dl)))\<lparr>settled := True\<rparr>,
                  snd (hits k (h, dl)))" ..
    have "playDealerHand dl h =
      Some (hand_total (fst (hits k (h, dl))), hand_settle (fst (hits k (h, dl))), snd (hits k (h, dl)))"
      using k by (intro playDealerHand_returns) simp_all
    with k show "playDealerHand dl h = Some r" by (simp add: hand_settle_def)
  qed
qed

theorem dealer_policy_witness:
  "shouldDealerHit (dealer demo_dealt)
     \<lparr>hand_cards = [aceSpades, twoDiamonds], settled = False, bet = Num 0,
       isDealerHand = True\<rparr>
   \<and> shouldDealerHit (dealer demo_dealt)
     \<lparr>hand_cards = [aceSpades, twoDiamonds, twoClubs], settled = False, bet = Num 0,
       isDealerHand = True\<rparr>
   \<and> \<not> shouldDealerHit (dealer demo_dealt)
     \<lparr>hand_cards = [aceSpades, twoDiamonds, twoClubs, twoSpades], settled = False,
       bet = Num 0, isDealerHand = True\<rparr>
   \<and> playDealerHand (dealer demo_dealt)
       \<lparr>hand_cards = [aceSpades, twoDiamonds], settled = False, bet = Num 0,
         isDealerHand = True\<rparr>
     = Some (17,
         \<lparr>hand_cards = [aceSpades, twoDiamonds, twoClubs, twoSpades], settled = True,
           bet = Num 0, isDealerHand = True\<rparr>,
         \<lparr>shoe = \<lparr>numDecks = 1, penetration = 3 / 4, cards = demo_rest, totalCards = 52,
                   discardPile = [aceDiamonds], rnd = (\<lambda>k. 0), rndPos = 51\<rparr>,
           dealerHitsSoft17 = False\<rparr>)"
proof -
  let ?h0 = "\<lparr>hand_cards = [aceSpades, twoDiamonds], settled = False, bet = Num 0,
       isDealerHand = True\<rparr>"
  let ?dl = "dealer demo_dealt"
  let ?r = "(17::int,
         \<lparr>hand_cards = [aceSpades, twoDiamonds, twoClubs, twoSpades], settled = True,
           bet = Num 0, isDealerHand = True\<rparr>,
         \<lparr>shoe = \<lparr>numDecks = 1, penetration = 3 / 4, cards = demo_rest, totalCards = 52,
                   discardPile = [aceDiamonds], rnd = (\<lambda>k. 0), rndPos = 51\<rparr>,
           dealerHitsSoft17 = False\<rparr>)"
  have h17: "\<not> dealerHitsSoft17 (dealer demo_dealt)" by (simp add: demo_dealt_def)
  have stop: "\<not> shouldDealerHit (snd (hits (Suc (Suc 0)) (?h0, ?dl))) (fst (hits (Suc (Suc 0)) (?h0, ?dl)))"
    using demo_should_hit(3)[of "snd (hits (Suc (Suc 0)) (?h0, ?dl))"]
    by (simp add: demo_hits del: hits.simps(2))
  have go: "\<forall>i<Suc (Suc 0). shouldDealerHit (snd (hits i (?h0, ?dl))) (fst (hits i (?h0, ?dl)))"
  proof (intro allI impI)
    fix i :: nat assume "i < Suc (Suc 0)"
    then have "i = 0 \<or> i = Suc 0" by auto
    then show "shouldDealerHit (snd (hits i (?h0, ?dl))) (fst (hits i (?h0, ?dl)))"
      using demo_should_hit(1,2) by (auto simp: demo_hits simp del: hits.simps(2))
  qed
  have r: "?r = (hand_total (fst (hits (Suc (Suc 0)) (?h0, ?dl))),
                  (fst (hits (Suc (Suc 0)) (?h0, ?dl)))\<lparr>settled := True\<rparr>,
                  snd (hits (Suc (Suc 0)) (?h0, ?dl)))"
    using demo_dealer_totals(3) by (simp add: demo_hits del: hits.simps(2))
  have "playDealerHand ?dl ?h0 = Some ?r"
    using dealer_policy[of ?dl ?h0 ?r] go stop r by blast
  with demo_should_hit(1,2)[of ?dl] demo_should_hit(3)[OF h17] show ?thesis by simp
qed

subsection \<open>Settlement and turn advancement\<close>

lemma settle_Some:
  "dealerHand g = Some dh \<Longrightarrow>
   settle g = Returned (g\<lparr>results := settleRound (playerHands g) dh,
       dealer := discardCards (concat (map getCards (playerHands g)) @ getCards dh) (dealer g),
       state := GAME_OVER\<rparr>)"
  by (simp add: settle_def Let_def)

lemma length_concat_getCards: "length (concat (map getCards hs)) = hands_count hs"
  by (induction hs) (simp_all add: hands_count_def getCards_def hand_size_def)

lemma discardCards_count:
  "shoe_count (shoe (discardCards cs dl)) = shoe_count (shoe dl) + length cs"
  "numDecks (shoe (discardCards cs dl)) = numDecks (shoe dl)"
  "shoe_valid (shoe dl) \<Longrightarrow> list_all valid_card cs \<Longrightarrow> shoe_valid (shoe (discardCards cs dl))"
  by (simp_all add: discardCards_def discard_def shoe_count_def shoe_valid_def)

lemma settle_props:
  assumes "dealerHand g = Some dh"
  shows "\<exists>g'. settle g = Returned g' \<and> state g' = GAME_OVER
     \<and> playerHands g' = playerHands g \<and> dealerHand g' = Some dh
     \<and> activeHandIdx g' = activeHandIdx g
     \<and> results g' = settleRound (playerHands g) dh
     \<and> discardPile (shoe (dealer g')) =
           discardPile (shoe (dealer g)) @ concat (map getCards (playerHands g)) @ getCards dh
     \<and> cards (shoe (dealer g')) = cards (shoe (dealer g))
     \<and> shoe_count (shoe (dealer g')) =
           shoe_count (shoe (dealer g)) + hands_count (playerHands g) + hand_size dh"
  using assms
  by (simp add: settle_Some discardCards_def discard_def shoe_count_def length_concat_getCards
        getCards_def hand_size_def)

lemma hits_count:
  "hand_size (fst (hits k (h, dl))) + shoe_count (shoe (snd (hits k (h, dl))))
     = hand_size h + shoe_count (shoe dl)"
proof (induction k arbitrary: h dl)
  case 0
  then show ?case by simp
next
  case (Suc k)
  have "hits (Suc k) (h, dl) = hits k (fst (snd (hit h dl)), snd (snd (hit h dl)))" by simp
  then show ?case using Suc.IH[of "fst (snd (hit h dl))" "snd (snd (hit h dl))"] hit_count[of h dl]
    by simp
qed

lemma playDealerHand_count:
  assumes "playDealerHand dl h = Some (t, h', dl')"
  shows "hand_size h' + shoe_count (shoe dl') = hand_size h + shoe_count (shoe dl)"
proof -
  from playDealerHand_result[OF assms] obtain k where
    "(t, h', dl') = (hand_total (fst (hits k (h, dl))), hand_settle (fst (hits k (h, dl))), snd (hits k (h, dl)))"
    by blast
  then have "h' = hand_settle (fst (hits k (h, dl)))" "dl' = snd (hits k (h, dl))" by simp_all
  then show ?thesis using hits_count[of k h dl] by (simp add: hand_settle_def hand_size_def)
qed

lemma beginDealerTurn_props:
  assumes dh: "dealerHand g = Some dh" and r: "beginDealerTurn g = Some r"
  shows "\<exists>g'. r = Returned g' \<and> state g' = GAME_OVER \<and> playerHands g' = playerHands g
     \<and> activeHandIdx g' = activeHandIdx g
     \<and> shoe_count (shoe (dealer g')) =
           shoe_count (shoe (dealer g)) + hands_count (playerHands g) + hand_size dh"
proof (cases "list_all isBusted (playerHands g)")
  case True
  let ?g = "g\<lparr>state := DEALER_TURN, dealerHand := Some (hand_settle dh), state := SETTLEMENT\<rparr>"
  have "r = settle ?g" using r dh True by (simp add: beginDealerTurn_def Let_def)
  moreover have "dealerHand ?g = Some (hand_settle dh)" by simp
  from settle_props[OF this] obtain g' where "settle ?g = Returned g'" "state g' = GAME_OVER"
    "playerHands g' = playerHands ?g" "activeHandIdx g' = activeHandIdx ?g"
    "shoe_count (shoe (dealer g')) =
           shoe_count (shoe (dealer ?g)) + hands_count (playerHands ?g) + hand_size (hand_settle dh)"
    by blast
  ultimately show ?thesis by (simp add: hand_settle_def hand_size_def)
next
  case False
  with r dh obtain t dh' dl' where p: "playDealerHand (dealer g) dh = Some (t, dh', dl')"
    by (auto simp: beginDealerTurn_def Let_def split: option.splits)
  let ?g = "g\<lparr>state := DEALER_TURN, dealer := dl', dealerHand := Some dh', state := SETTLEMENT\<rparr>"
  have "r = settle ?g" using r dh False p by (simp add: beginDealerTurn_def Let_def)
  moreover have "dealerHand ?g = Some dh'" by simp
  from settle_props[OF this] obtain g' where "settle ?g = Returned g'" "state g' = GAME_OVER"
    "playerHands g' = playerHands ?g" "activeHandIdx g' = activeHandIdx ?g"
    "shoe_count (shoe (dealer g')) =
           shoe_count (shoe (dealer ?g)) + hands_count (playerHands ?g) + hand_size dh'"
    by blast
  ultimately show ?thesis using playDealerHand_count[OF p] by simp
qed

lemma skip_loop_bounds: "i \<le> skip_loop hs i"
proof (induction hs i rule: skip_loop.induct)
  case (1 hs i)
  show ?case
  proof (cases "i < length hs \<and> isSettled (hs ! i)")
    case True
    with 1 have "i + 1 \<le> skip_loop hs (i + 1)" by simp
    moreover have "skip_loop hs i = skip_loop hs (i + 1)" using True by (subst skip_loop.simps) auto
    ultimately show ?thesis by simp
  next
    case False
    then have "skip_loop hs i = i" by (subst skip_loop.simps) auto
    then show ?thesis by simp
  qed
qed

lemma skip_loop_stops:
  "skip_loop hs i < length hs \<Longrightarrow> \<not> isSettled (hs ! skip_loop hs i)"
proof (induction hs i rule: skip_loop.induct)
  case (1 hs i)
  show ?case
  proof (cases "i < length hs \<and> isSettled (hs ! i)")
    case True
    then have e: "skip_loop hs i = skip_loop hs (i + 1)" by (subst skip_loop.simps) auto
    with 1 True show ?thesis by simp
  next
    case False
    then have e: "skip_loop hs i = i" by (subst skip_loop.simps) auto
    with 1(2) False show ?thesis by simp
  qed
qed

lemma skipSettledHands_props:
  assumes dh: "dealerHand g = Some dh" and r: "skipSettledHands g = Some r"
  shows "\<exists>g'. r = Returned g' \<and> playerHands g' = playerHands g
     \<and> activeHandIdx g' = skip_loop (playerHands g) (activeHandIdx g)
     \<and> ((state g' = state g \<and> dealer g' = dealer g \<and> dealerHand g' = dealerHand g
          \<and> activeHandIdx g' < length (playerHands g))
        \<or> (state g' = GAME_OVER \<and> length (playerHands g) \<le> skip_loop (playerHands g) (activeHandIdx g)
          \<and> shoe_count (shoe (dealer g')) =
               shoe_count (shoe (dealer g)) + hands_count (playerHands g) + hand_size dh))"
proof (cases "length (playerHands g) \<le> skip_loop (playerHands g) (activeHandIdx g)")
  case True
  let ?g = "g\<lparr>activeHandIdx := skip_loop (playerHands g) (activeHandIdx g)\<rparr>"
  have "beginDealerTurn ?g = Some r" using r True by (simp add: skipSettledHands_def Let_def)
  moreover have "dealerHand ?g = Some dh" using dh by simp
  ultimately show ?thesis using beginDealerTurn_props[of ?g dh r] True by auto
next
  case False
  then show ?thesis using r by (auto simp: skipSettledHands_def Let_def)
qed

subsection \<open>Splitting\<close>





lemma pair_shuffle:
  "fisherYatesShuffle (\<lambda>k. if k = 48 then 3 / 4 else 0) 0 buildSingleDeck =
     (aceDiamonds # aceClubs # twoHearts # aceSpades # twoDiamonds # twoClubs # twoSpades
      # demo_rest, 51)"
  by code_simp

lemma pair_game_eq:
  "pair_game =
     \<lparr>dealer =
        \<lparr>shoe =
           \<lparr>numDecks = 1, penetration = 3 / 4,
            cards = aceDiamonds # aceClubs # twoHearts # aceSpades # twoDiamonds # twoClubs
              # twoSpades # demo_rest,
            totalCards = 52, discardPile = [],
            rnd = (\<lambda>k. if k = 48 then 3 / 4 else 0), rndPos = 51\<rparr>,
         dealerHitsSoft17 = False\<rparr>,
      state = BETTING, playerHands = [], dealerHand = None, activeHandIdx = 0, results = []\<rparr>"
  by (simp add: pair_game_def createGame_def createDealer_def createDeck_def reset_def
        pair_shuffle buildSingleDeck_length)

lemma pair_hands:
  "\<not> isBlackjack \<lparr>hand_cards = [aceClubs, aceSpades], settled = False, bet = Num 10,
          isDealerHand = False\<rparr>"
  "\<not> isSettled \<lparr>hand_cards = [aceClubs, aceSpades], settled = False, bet = Num 10,
          isDealerHand = False\<rparr>"
  "\<not> isBlackjack \<lparr>hand_cards = [twoHearts, twoDiamonds], settled = False, bet = Num 0,
          isDealerHand = True\<rparr>"
  "rank aceClubs = rank aceSpades"
  "\<not> isSettled \<lparr>hand_cards = [aceClubs, twoClubs], settled = False, bet = Num 10,
          isDealerHand = False\<rparr>"
  by code_simp+

lemma pair_placeBets: "placeBets [Num 10] pair_game = Some (Returned pair_dealt)"
proof -
  let ?dl = "dealer pair_game"
  have c: "cards (shoe ?dl) = aceDiamonds # aceClubs # twoHearts # aceSpades # twoDiamonds
     # (twoClubs # twoSpades # demo_rest)"
    by (simp add: pair_game_eq)
  have t: "\<lfloor>of_nat (totalCards (shoe ?dl)) * (1 - penetration (shoe ?dl))\<rfloor>
      \<le> int (length (twoClubs # twoSpades # demo_rest))"
    by (simp add: pair_game_eq demo_rest_length)
  note d = dealInitial_one_player[OF c t, of "Num 10"]
  have s: "skip_loop [\<lparr>hand_cards = [aceClubs, aceSpades], settled = False,
          bet = Num 10, isDealerHand = False\<rparr>] 0 = 0"
    using pair_hands(2) by (subst skip_loop.simps) simp
  have st: "state pair_game = BETTING" by (simp add: pair_game_eq)
  show ?thesis
    using pair_hands(1,3) s
    by (simp add: placeBets_def d st bet_or_zero_def skipSettledHands_def Let_def)
       (simp add: pair_game_eq pair_dealt_def)
qed


subsection \<open>Naturals at the deal\<close>

lemma valid_sum_bounds:
  "list_all valid_card cs \<Longrightarrow>
   sum_list (map card_value cs) \<le> 11 * int (length cs)
   \<and> sum_list (map card_value cs) - 10 * int (length (filter isAce cs)) \<le> 10 * int (length cs)
   \<and> 0 \<le> sum_list (map card_value cs) - 10 * int (length (filter isAce cs))"
  by (induction cs) (auto simp: valid_card_def split: if_splits)

lemma hand_within_total:
  assumes "hand_within 2 h"
  shows "\<not> isBusted h" and "\<not> isBlackjack h \<Longrightarrow> hand_total h < 21"
proof -
  let ?cs = "hand_cards h"
  let ?s = "sum_list (map card_value ?cs)" and ?a = "length (filter isAce ?cs)"
  from assms have len: "length ?cs \<le> 2" and v: "list_all valid_card ?cs"
    by (simp_all add: hand_within_def)
  note b = valid_sum_bounds[OF v]
  from evaluate_reduction[of ?cs] obtain k where k: "k \<le> ?a"
    "hand_total h = ?s - 10 * int k" "k < ?a \<longrightarrow> ?s - 10 * int k \<le> 21"
    "\<forall>j<k. ?s - 10 * int j > 21"
    unfolding hand_total_def by blast
  have le21: "hand_total h \<le> 21"
  proof (cases "k < ?a")
    case True
    with k show ?thesis by simp
  next
    case False
    with k(1) have "k = ?a" by simp
    with k(2) b len show ?thesis by simp
  qed
  then show "\<not> isBusted h" by (simp add: isBusted_def)
  show "hand_total h < 21" if nb: "\<not> isBlackjack h"
  proof (cases "length ?cs = 2")
    case True
    with nb have "hand_total h \<noteq> 21" by (simp add: isBlackjack_def)
    with le21 show ?thesis by simp
  next
    case False
    with len have l1: "length ?cs \<le> 1" by simp
    with b have s11: "?s \<le> 11" by simp
    have "k = 0"
    proof (rule ccontr)
      assume "k \<noteq> 0"
      then have "0 < k" by simp
      with k(4) have "?s - 10 * int 0 > 21" by blast
      with s11 show False by simp
    qed
    with k(2) s11 show ?thesis by simp
  qed
qed

lemma isBlackjack_not_busted: "isBlackjack h \<Longrightarrow> \<not> isBusted h"
  by (simp add: isBlackjack_def isBusted_def)

lemma compare_dealer_natural:
  assumes "isBlackjack dh" and "hand_within 2 h"
  shows "compareHands h dh = (if isBlackjack h then (PUSH, 0) else (LOSE, -1))"
proof (cases "isBlackjack h")
  case True
  with assms show ?thesis by (simp add: compareHands_def Let_def isBlackjack_not_busted)
next
  case False
  from hand_within_total[OF assms(2)] False have "\<not> isBusted h" "hand_total h < 21" by simp_all
  moreover from assms(1) have "hand_total dh = 21" "\<not> isBusted dh"
    by (simp_all add: isBlackjack_def isBusted_def)
  ultimately show ?thesis using False by (simp add: compareHands_def Let_def)
qed

lemma compare_player_natural:
  "isBlackjack h \<Longrightarrow> \<not> isBlackjack dh \<Longrightarrow> compareHands h dh = (BLACKJACK, 3 / 2)"
  by (simp add: compareHands_def Let_def isBlackjack_not_busted)

lemma settleRound_outcomes:
  "map (\<lambda>r. (outcome r, payout r)) (settleRound hs dh) = map (\<lambda>h. compareHands h dh) hs"
  by (induction hs) (auto simp: settleRound_def split: prod.splits)

lemma deal_to_hands_within:
  "deal_to_hands hs d = (hs', d') \<Longrightarrow> shoe_valid d \<Longrightarrow> list_all (hand_within n) hs \<Longrightarrow>
   list_all (hand_within (Suc n)) hs' \<and> shoe_valid d'"
proof (induction hs arbitrary: d hs' d')
  case Nil
  then show ?case by simp
next
  case (Cons h hs)
  obtain drawn d1 where d1: "draw 1 d = (drawn, d1)" by (cases "draw 1 d")
  obtain hs1 d2 where d2: "deal_to_hands hs d1 = (hs1, d2)" by (cases "deal_to_hands hs d1")
  from Cons.prems(1) d1 d2 have e: "hs' = addCards drawn h # hs1" "d' = d2" by simp_all
  from draw_valid[OF Cons.prems(2), of 1] d1 have v: "list_all valid_card drawn" "shoe_valid d1"
    by simp_all
  from draw_length_le[of 1 d] d1 have l: "length drawn \<le> 1" by simp
  from Cons.prems(3) have h: "hand_within n h" and hs: "list_all (hand_within n) hs" by simp_all
  from Cons.IH[OF d2 v(2) hs] have "list_all (hand_within (Suc n)) hs1" "shoe_valid d2" by simp_all
  moreover have "hand_within (Suc n) (addCards drawn h)"
    using h v(1) l by (simp add: hand_within_def addCards_def)
  ultimately show ?case using e by simp
qed

lemma deal_pass_within:
  assumes "deal_pass (hs, dh, d) = (hs', dh', d')" "shoe_valid d"
    "list_all (hand_within n) hs" "hand_within n dh"
  shows "list_all (hand_within (Suc n)) hs' \<and> hand_within (Suc n) dh' \<and> shoe_valid d'"
proof -
  obtain hs1 d1 where a: "deal_to_hands hs d = (hs1, d1)" by (cases "deal_to_hands hs d")
  obtain drawn d2 where b: "draw 1 d1 = (drawn, d2)" by (cases "draw 1 d1")
  from assms(1) a b have e: "hs' = hs1" "dh' = addCards drawn dh" "d' = d2"
    by (simp_all add: deal_pass_def)
  from deal_to_hands_within[OF a assms(2,3)] have 1: "list_all (hand_within (Suc n)) hs1" "shoe_valid d1"
    by simp_all
  from draw_valid[OF 1(2), of 1] b have v: "list_all valid_card drawn" "shoe_valid d2" by simp_all
  from draw_length_le[of 1 d1] b have l: "length drawn \<le> 1" by simp
  have "hand_within (Suc n) (addCards drawn dh)"
    using assms(4) v(1) l by (simp add: hand_within_def addCards_def)
  with 1 v e show ?thesis by simp
qed

lemma dealInitial_within:
  assumes "dealInitial n bets dl = (hs, dh, dl')" "shoe_valid (shoe dl)"
  shows "list_all (hand_within 2) hs \<and> hand_within 2 dh \<and> shoe_valid (shoe dl')"
proof -
  let ?hs0 = "map (\<lambda>i. createHand False (bet_or_zero bets i)) [0..<n]"
  let ?dh0 = "createHand True (Num 0)"
  obtain burned dl1 where b: "burnCard dl = (burned, dl1)" by (cases "burnCard dl")
  obtain hs1 dh1 s1 where p1: "deal_pass (?hs0, ?dh0, shoe dl1) = (hs1, dh1, s1)"
    by (cases "deal_pass (?hs0, ?dh0, shoe dl1)")
  obtain hs2 dh2 s2 where p2: "deal_pass (hs1, dh1, s1) = (hs2, dh2, s2)"
    by (cases "deal_pass (hs1, dh1, s1)")
  from assms(1) b p1 p2 have eq: "hs = hs2" "dh = dh2" "dl' = dl1\<lparr>shoe := s2\<rparr>"
    by (simp_all add: dealInitial_def Let_def)
  have v1: "shoe_valid (shoe dl1)" using b assms(2) burn_fields(5)[of 1 "shoe dl"]
    by (auto simp: burnCard_def split: prod.splits)
  have h0: "list_all (hand_within 0) ?hs0" "hand_within 0 ?dh0"
    by (simp_all add: list_all_iff hand_within_def createHand_def)
  from deal_pass_within[OF p1 v1 h0] have 1: "list_all (hand_within (Suc 0)) hs1"
    "hand_within (Suc 0) dh1" "shoe_valid s1" by simp_all
  from deal_pass_within[OF p2 1(3) 1(1) 1(2)] eq show ?thesis by (simp add: numeral_2_eq_2)
qed

lemma deal_to_hands_settled:
  "deal_to_hands hs d = (hs', d') \<Longrightarrow> map settled hs' = map settled hs"
proof (induction hs arbitrary: d hs' d')
  case Nil
  then show ?case by simp
next
  case (Cons h hs)
  obtain drawn d1 where d1: "draw 1 d = (drawn, d1)" by (cases "draw 1 d")
  obtain hs1 d2 where d2: "deal_to_hands hs d1 = (hs1, d2)" by (cases "deal_to_hands hs d1")
  from Cons.prems d1 d2 have "hs' = addCards drawn h # hs1" by simp
  with Cons.IH[OF d2] show ?case by (simp add: addCards_def)
qed

lemma dealInitial_unsettled:
  assumes "dealInitial n bets dl = (hs, dh, dl')"
  shows "list_all (\<lambda>h. \<not> settled h) hs"
proof -
  let ?hs0 = "map (\<lambda>i. createHand False (bet_or_zero bets i)) [0..<n]"
  let ?dh0 = "createHand True (Num 0)"
  obtain burned dl1 where b: "burnCard dl = (burned, dl1)" by (cases "burnCard dl")
  obtain hs1 d1 where a1: "deal_to_hands ?hs0 (shoe dl1) = (hs1, d1)"
    by (cases "deal_to_hands ?hs0 (shoe dl1)")
  obtain x1 e1 where b1: "draw 1 d1 = (x1, e1)" by (cases "draw 1 d1")
  obtain hs2 d2 where a2: "deal_to_hands hs1 e1 = (hs2, d2)" by (cases "deal_to_hands hs1 e1")
  obtain x2 e2 where b2: "draw 1 d2 = (x2, e2)" by (cases "draw 1 d2")
  from assms b a1 b1 a2 b2 have "hs = hs2" by (simp add: dealInitial_def Let_def deal_pass_def)
  moreover have "map settled hs2 = map settled ?hs0"
    using deal_to_hands_settled[OF a1] deal_to_hands_settled[OF a2] by simp
  moreover have "map settled ?hs0 = replicate n False"
    by (simp add: createHand_def comp_def map_replicate_const)
  ultimately have "map settled hs = replicate n False" by simp
  then have "\<forall>b \<in> set (map settled hs). b = False" by simp
  then show ?thesis by (simp add: list_all_iff)
qed

lemma skip_loop_finds:
  "i \<le> j \<Longrightarrow> j < length hs \<Longrightarrow> \<not> isSettled (hs ! j) \<Longrightarrow> skip_loop hs i < length hs"
proof (induction hs i rule: skip_loop.induct)
  case (1 hs i)
  show ?case
  proof (cases "i < length hs \<and> isSettled (hs ! i)")
    case True
    then have e: "skip_loop hs i = skip_loop hs (i + 1)" by (subst skip_loop.simps) auto
    from True 1(4) have "i \<noteq> j" by auto
    with 1(2) have "i + 1 \<le> j" by simp
    from 1(1)[OF True this 1(3) 1(4)] e show ?thesis by simp
  next
    case False
    then have e: "skip_loop hs i = i" by (subst skip_loop.simps) auto
    from 1(2,3) have "i < length hs" by simp
    with e show ?thesis by simp
  qed
qed

text \<open>
  C4, as the code has it.  \<open>placeBets\<close> in \<open>BETTING\<close> with at least one bet, on a
  shoe of cards as the rank table makes them, returns.  When the dealer hand dealt is a
  natural, the round is settled at once and ends in \<open>GAME_OVER\<close>: every player natural
  gets PUSH with payout 0 and every other player hand LOSE with payout -1.  When the
  dealer hand is not a natural and every player hand is, the round is settled at once as
  well and ends in \<open>GAME_OVER\<close>, and every player hand gets BLACKJACK with payout 1.5.
  Otherwise \<open>placeBets\<close> ends in \<open>PLAYER_TURN\<close> on a hand that is not settled.
\<close>

theorem placeBets_naturals:
  assumes st: "state g = BETTING" and nb: "bets \<noteq> []" and sv: "shoe_valid (shoe (dealer g))"
  shows "let hs = fst (dealInitial (length bets) bets (dealer g));
             dh = fst (snd (dealInitial (length bets) bets (dealer g)))
         in (isBlackjack dh \<longrightarrow>
               (\<exists>g'. placeBets bets g = Some (Returned g') \<and> state g' = GAME_OVER
                  \<and> playerHands g' = hs
                  \<and> map (\<lambda>r. (outcome r, payout r)) (results g')
                      = map (\<lambda>h. if isBlackjack h then (PUSH, 0) else (LOSE, -1)) hs))
          \<and> (\<not> isBlackjack dh \<and> list_all isBlackjack hs \<longrightarrow>
               (\<exists>g'. placeBets bets g = Some (Returned g') \<and> state g' = GAME_OVER
                  \<and> playerHands g' = hs
                  \<and> map (\<lambda>r. (outcome r, payout r)) (results g')
                      = map (\<lambda>h. (BLACKJACK, 3 / 2)) hs))
          \<and> (\<not> isBlackjack dh \<and> \<not> list_all isBlackjack hs \<longrightarrow>
               (\<exists>g'. placeBets bets g = Some (Returned g') \<and> state g' = PLAYER_TURN
                  \<and> playerHands g' = hs \<and> activeHandIdx g' < length hs
                  \<and> \<not> isSettled (hs ! activeHandIdx g')))"
proof -
  obtain hs dh dl' where d: "dealInitial (length bets) bets (dealer g) = (hs, dh, dl')"
    by (cases "dealInitial (length bets) bets (dealer g)")
  from dealInitial_within[OF d sv] have w: "list_all (hand_within 2) hs" "hand_within 2 dh"
    by simp_all
  let ?g1 = "g\<lparr>state := DEALING, dealer := dl', playerHands := hs, dealerHand := Some dh,
              activeHandIdx := 0, results := []\<rparr>"
  have len: "length bets \<noteq> 0" using nb by simp
  have dhs: "dealerHand (?g1\<lparr>state := SETTLEMENT\<rparr>) = Some dh" by simp
  from settle_props[OF dhs] obtain g' where g':
    "settle (?g1\<lparr>state := SETTLEMENT\<rparr>) = Returned g'" "state g' = GAME_OVER"
    "playerHands g' = hs" "results g' = settleRound hs dh"
    by auto
  have res: "map (\<lambda>r. (outcome r, payout r)) (results g') = map (\<lambda>h. compareHands h dh) hs"
    using g'(4) by (simp add: settleRound_outcomes)
  have b1: "isBlackjack dh \<longrightarrow>
       (\<exists>g'. placeBets bets g = Some (Returned g') \<and> state g' = GAME_OVER
          \<and> playerHands g' = hs
          \<and> map (\<lambda>r. (outcome r, payout r)) (results g')
              = map (\<lambda>h. if isBlackjack h then (PUSH, 0) else (LOSE, -1)) hs)"
  proof
    assume bj: "isBlackjack dh"
    have p: "placeBets bets g = Some (Returned g')"
      using st len d bj g'(1) by (simp add: placeBets_def Let_def)
    have "map (\<lambda>h. compareHands h dh) hs
        = map (\<lambda>h. if isBlackjack h then (PUSH, 0) else (LOSE, -1)) hs"
    proof (rule map_cong[OF refl])
      fix h assume "h \<in> set hs"
      with w(1) have "hand_within 2 h" by (simp add: list_all_iff)
      from compare_dealer_natural[OF bj this]
      show "compareHands h dh = (if isBlackjack h then (PUSH, 0) else (LOSE, -1))" .
    qed
    with p g'(2,3) res show "\<exists>g'. placeBets bets g = Some (Returned g') \<and> state g' = GAME_OVER
          \<and> playerHands g' = hs
          \<and> map (\<lambda>r. (outcome r, payout r)) (results g')
              = map (\<lambda>h. if isBlackjack h then (PUSH, 0) else (LOSE, -1)) hs"
      by auto
  qed
  have b2: "\<not> isBlackjack dh \<and> list_all isBlackjack hs \<longrightarrow>
       (\<exists>g'. placeBets bets g = Some (Returned g') \<and> state g' = GAME_OVER
          \<and> playerHands g' = hs
          \<and> map (\<lambda>r. (outcome r, payout r)) (results g') = map (\<lambda>h. (BLACKJACK, 3 / 2)) hs)"
  proof
    assume a: "\<not> isBlackjack dh \<and> list_all isBlackjack hs"
    have p: "placeBets bets g = Some (Returned g')"
      using st len d a g'(1) by (simp add: placeBets_def Let_def)
    have "map (\<lambda>h. compareHands h dh) hs = map (\<lambda>h. (BLACKJACK, 3 / 2)) hs"
    proof (rule map_cong[OF refl])
      fix h assume "h \<in> set hs"
      with a have "isBlackjack h" by (simp add: list_all_iff)
      from compare_player_natural[OF this] a
      show "compareHands h dh = (BLACKJACK, 3 / 2)" by simp
    qed
    with p g'(2,3) res show "\<exists>g'. placeBets bets g = Some (Returned g') \<and> state g' = GAME_OVER
          \<and> playerHands g' = hs
          \<and> map (\<lambda>r. (outcome r, payout r)) (results g') = map (\<lambda>h. (BLACKJACK, 3 / 2)) hs"
      by auto
  qed
  have b3: "\<not> isBlackjack dh \<and> \<not> list_all isBlackjack hs \<longrightarrow>
       (\<exists>g'. placeBets bets g = Some (Returned g') \<and> state g' = PLAYER_TURN
          \<and> playerHands g' = hs \<and> activeHandIdx g' < length hs
          \<and> \<not> isSettled (hs ! activeHandIdx g'))"
  proof
    assume a: "\<not> isBlackjack dh \<and> \<not> list_all isBlackjack hs"
    then obtain h where h: "h \<in> set hs" "\<not> isBlackjack h" by (auto simp: list_all_iff)
    then obtain j where j: "j < length hs" "hs ! j = h" by (auto simp: in_set_conv_nth)
    from h(1) w(1) have "hand_within 2 h" by (simp add: list_all_iff)
    from hand_within_total(1)[OF this] have nbust: "\<not> isBusted h" .
    from dealInitial_unsettled[OF d] h(1) have "\<not> settled h" by (simp add: list_all_iff)
    with nbust h(2) j(2) have ns: "\<not> isSettled (hs ! j)" by (simp add: isSettled_def)
    have fin: "skip_loop hs 0 < length hs"
      using skip_loop_finds[of 0 j hs] j(1) ns by simp
    let ?g' = "?g1\<lparr>state := PLAYER_TURN, activeHandIdx := skip_loop hs 0\<rparr>"
    have p: "placeBets bets g = Some (Returned ?g')"
      using st len d a fin by (simp add: placeBets_def skipSettledHands_def Let_def)
    moreover have "\<not> isSettled (hs ! skip_loop hs 0)" using skip_loop_stops[OF fin] .
    ultimately show "\<exists>g'. placeBets bets g = Some (Returned g') \<and> state g' = PLAYER_TURN
          \<and> playerHands g' = hs \<and> activeHandIdx g' < length hs
          \<and> \<not> isSettled (hs ! activeHandIdx g')"
      using fin by (intro exI[of _ ?g']) simp
  qed
  show ?thesis using b1 b2 b3 by (simp add: Let_def d)
qed

lemma buildSingleDeck_valid: "list_all valid_card buildSingleDeck"
  by code_simp

lemma createGame_valid: "shoe_valid (shoe (dealer (createGame n pen h17 r)))"
proof -
  let ?cs = "concat (replicate n buildSingleDeck)"
  obtain cs' p' where s: "fisherYatesShuffle r 0 ?cs = (cs', p')"
    by (cases "fisherYatesShuffle r 0 ?cs")
  have "set cs' = set ?cs" using fisherYatesShuffle_set[of r 0 ?cs] s by simp
  moreover have "set ?cs \<subseteq> set buildSingleDeck" by auto
  ultimately have "list_all valid_card cs'"
    using buildSingleDeck_valid by (auto simp: list_all_iff)
  then show ?thesis
    by (simp add: createGame_def createDealer_def createDeck_def reset_def Let_def s shoe_valid_def)
qed

lemma bj_rest_length: "length bj_rest = 45"
  by code_simp

lemma nat_rest_length: "length nat_rest = 45"
  by code_simp

lemma bj_shuffle:
  "fisherYatesShuffle (\<lambda>k. if k = 0 then 3 / 52 else if k = 48 then 3 / 4 else 0) 0 buildSingleDeck =
     (aceDiamonds # aceClubs # twoHearts # kingSpades # twoDiamonds # twoClubs # twoSpades
      # bj_rest, 51)"
  by code_simp

lemma nat_shuffle:
  "fisherYatesShuffle (\<lambda>k. if k = 0 then 1 / 13 else if k = 47 then 4 / 5 else 0) 0 buildSingleDeck =
     (aceDiamonds # aceClubs # aceSpades # twoDiamonds # kingSpades # twoClubs # twoSpades
      # nat_rest, 51)"
  by code_simp

lemma bj_game_eq:
  "bj_game =
     \<lparr>dealer =
        \<lparr>shoe =
           \<lparr>numDecks = 1, penetration = 3 / 4,
            cards = aceDiamonds # aceClubs # twoHearts # kingSpades # twoDiamonds # twoClubs
              # twoSpades # bj_rest,
            totalCards = 52, discardPile = [],
            rnd = (\<lambda>k. if k = 0 then 3 / 52 else if k = 48 then 3 / 4 else 0), rndPos = 51\<rparr>,
         dealerHitsSoft17 = False\<rparr>,
      state = BETTING, playerHands = [], dealerHand = None, activeHandIdx = 0, results = []\<rparr>"
  by (simp add: bj_game_def createGame_def createDealer_def createDeck_def reset_def
        bj_shuffle buildSingleDeck_length)

lemma nat_game_eq:
  "nat_game =
     \<lparr>dealer =
        \<lparr>shoe =
           \<lparr>numDecks = 1, penetration = 3 / 4,
            cards = aceDiamonds # aceClubs # aceSpades # twoDiamonds # kingSpades # twoClubs
              # twoSpades # nat_rest,
            totalCards = 52, discardPile = [],
            rnd = (\<lambda>k. if k = 0 then 1 / 13 else if k = 47 then 4 / 5 else 0), rndPos = 51\<rparr>,
         dealerHitsSoft17 = False\<rparr>,
      state = BETTING, playerHands = [], dealerHand = None, activeHandIdx = 0, results = []\<rparr>"
  by (simp add: nat_game_def createGame_def createDealer_def createDeck_def reset_def
        nat_shuffle buildSingleDeck_length)

lemma bj_hands:
  "isBlackjack \<lparr>hand_cards = [aceClubs, kingSpades], settled = False, bet = Num 10,
          isDealerHand = False\<rparr>"
  "\<not> isBlackjack \<lparr>hand_cards = [twoHearts, twoDiamonds], settled = False, bet = Num 0,
          isDealerHand = True\<rparr>"
  "compareHands \<lparr>hand_cards = [aceClubs, kingSpades], settled = False, bet = Num 10,
          isDealerHand = False\<rparr>
     \<lparr>hand_cards = [twoHearts, twoDiamonds], settled = False, bet = Num 0,
          isDealerHand = True\<rparr> = (BLACKJACK, 3 / 2)"
  by code_simp+

lemma nat_hands:
  "isBlackjack \<lparr>hand_cards = [aceSpades, kingSpades], settled = False, bet = Num 0,
          isDealerHand = True\<rparr>"
  "\<not> isBlackjack \<lparr>hand_cards = [aceClubs, twoDiamonds], settled = False, bet = Num 10,
          isDealerHand = False\<rparr>"
  by code_simp+

lemma bj_deal:
  "dealInitial (Suc 0) [Num 10] (dealer bj_game) =
     ([\<lparr>hand_cards = [aceClubs, kingSpades], settled = False, bet = Num 10,
        isDealerHand = False\<rparr>],
      \<lparr>hand_cards = [twoHearts, twoDiamonds], settled = False, bet = Num 0, isDealerHand = True\<rparr>,
      (dealer bj_game)\<lparr>shoe := (shoe (dealer bj_game))
         \<lparr>cards := twoClubs # twoSpades # bj_rest, discardPile := [aceDiamonds]\<rparr>\<rparr>)"
proof -
  let ?dl = "dealer bj_game"
  have c: "cards (shoe ?dl) = aceDiamonds # aceClubs # twoHearts # kingSpades # twoDiamonds
     # (twoClubs # twoSpades # bj_rest)"
    by (simp add: bj_game_eq)
  have t: "\<lfloor>of_nat (totalCards (shoe ?dl)) * (1 - penetration (shoe ?dl))\<rfloor>
      \<le> int (length (twoClubs # twoSpades # bj_rest))"
    by (simp add: bj_game_eq bj_rest_length)
  from dealInitial_one_player[OF c t, of "Num 10"] show ?thesis
    by (simp add: bet_or_zero_def) (simp add: bj_game_eq)
qed

lemma nat_deal:
  "dealInitial (Suc 0) [Num 10] (dealer nat_game) =
     ([\<lparr>hand_cards = [aceClubs, twoDiamonds], settled = False, bet = Num 10,
        isDealerHand = False\<rparr>],
      \<lparr>hand_cards = [aceSpades, kingSpades], settled = False, bet = Num 0, isDealerHand = True\<rparr>,
      (dealer nat_game)\<lparr>shoe := (shoe (dealer nat_game))
         \<lparr>cards := twoClubs # twoSpades # nat_rest, discardPile := [aceDiamonds]\<rparr>\<rparr>)"
proof -
  let ?dl = "dealer nat_game"
  have c: "cards (shoe ?dl) = aceDiamonds # aceClubs # aceSpades # twoDiamonds # kingSpades
     # (twoClubs # twoSpades # nat_rest)"
    by (simp add: nat_game_eq)
  have t: "\<lfloor>of_nat (totalCards (shoe ?dl)) * (1 - penetration (shoe ?dl))\<rfloor>
      \<le> int (length (twoClubs # twoSpades # nat_rest))"
    by (simp add: nat_game_eq nat_rest_length)
  from dealInitial_one_player[OF c t, of "Num 10"] show ?thesis
    by (simp add: bet_or_zero_def) (simp add: nat_game_eq)
qed

lemma demo_deal:
  "dealInitial (Suc 0) [Num 10] (dealer demo_game) =
     ([\<lparr>hand_cards = [aceClubs, twoHearts], settled = False, bet = Num 10,
        isDealerHand = False\<rparr>],
      \<lparr>hand_cards = [aceSpades, twoDiamonds], settled = False, bet = Num 0, isDealerHand = True\<rparr>,
      (dealer demo_game)\<lparr>shoe := (shoe (dealer demo_game))
         \<lparr>cards := twoClubs # twoSpades # demo_rest, discardPile := [aceDiamonds]\<rparr>\<rparr>)"
proof -
  let ?dl = "dealer demo_game"
  have c: "cards (shoe ?dl) = aceDiamonds # aceClubs # aceSpades # twoHearts # twoDiamonds
     # (twoClubs # twoSpades # demo_rest)"
    by (simp add: demo_game_eq)
  have t: "\<lfloor>of_nat (totalCards (shoe ?dl)) * (1 - penetration (shoe ?dl))\<rfloor>
      \<le> int (length (twoClubs # twoSpades # demo_rest))"
    by (simp add: demo_game_eq demo_rest_length)
  from dealInitial_one_player[OF c t, of "Num 10"] show ?thesis
    by (simp add: bet_or_zero_def) (simp add: demo_game_eq)
qed

text \<open>
  In \<open>bj_game\<close> the only player hand is a natural and the dealer hand is not: the round
  is settled at once, and the natural is paid BLACKJACK at 1.5, not PUSH at 0.
\<close>

theorem placeBets_naturals_counterexample:
  "state bj_game = BETTING
   \<and> list_all isBlackjack (fst (dealInitial (length [Num 10]) [Num 10] (dealer bj_game)))
   \<and> placeBets [Num 10] bj_game = Some (Returned bj_over)
   \<and> state bj_over = GAME_OVER
   \<and> list_all isBlackjack (playerHands bj_over)
   \<and> map outcome (results bj_over) = [BLACKJACK]
   \<and> map payout (results bj_over) = [3 / 2]
   \<and> map outcome (results bj_over) \<noteq> [PUSH]
   \<and> map payout (results bj_over) \<noteq> [0]"
proof -
  have st: "state bj_game = BETTING" by (simp add: bj_game_eq)
  have p: "placeBets [Num 10] bj_game = Some (Returned bj_over)"
    using bj_hands bj_deal
    by (simp add: placeBets_def st Let_def settle_def settleRound_def getCards_def
          discardCards_def discard_def getBet_def)
       (simp add: bj_game_eq bj_over_def)
  show ?thesis using st p bj_hands(1) bj_deal by (simp add: bj_over_def)
qed


theorem placeBets_naturals_witness:
  "state nat_game = BETTING \<and> shoe_valid (shoe (dealer nat_game))
   \<and> isBlackjack (fst (snd (dealInitial (length [Num 10]) [Num 10] (dealer nat_game))))
   \<and> (\<exists>g'. placeBets [Num 10] nat_game = Some (Returned g') \<and> state g' = GAME_OVER
          \<and> map (\<lambda>r. (outcome r, payout r)) (results g') = [(LOSE, -1)])
   \<and> state bj_game = BETTING \<and> shoe_valid (shoe (dealer bj_game))
   \<and> (\<exists>g'. placeBets [Num 10] bj_game = Some (Returned g') \<and> state g' = GAME_OVER
          \<and> map (\<lambda>r. (outcome r, payout r)) (results g') = [(BLACKJACK, 3 / 2)])
   \<and> state demo_game = BETTING \<and> shoe_valid (shoe (dealer demo_game))
   \<and> (\<exists>g'. placeBets [Num 10] demo_game = Some (Returned g') \<and> state g' = PLAYER_TURN
          \<and> activeHandIdx g' < length (playerHands g'))"
proof -
  have ne: "[Num 10] \<noteq> []" by simp
  have s1: "state nat_game = BETTING" and s2: "state bj_game = BETTING"
    and s3: "state demo_game = BETTING"
    by (simp_all add: nat_game_def bj_game_def demo_game_def createGame_def)
  have v1: "shoe_valid (shoe (dealer nat_game))" and v2: "shoe_valid (shoe (dealer bj_game))"
    and v3: "shoe_valid (shoe (dealer demo_game))"
    by (simp_all add: nat_game_def bj_game_def demo_game_def createGame_valid)
  have n: "isBlackjack (fst (snd (dealInitial (length [Num 10]) [Num 10] (dealer nat_game))))"
    using nat_hands(1) nat_deal by simp
  have 1: "\<exists>g'. placeBets [Num 10] nat_game = Some (Returned g') \<and> state g' = GAME_OVER
          \<and> map (\<lambda>r. (outcome r, payout r)) (results g') = [(LOSE, -1)]"
    using placeBets_naturals[OF s1 ne v1] nat_hands nat_deal by (auto simp: Let_def)
  have 2: "\<exists>g'. placeBets [Num 10] bj_game = Some (Returned g') \<and> state g' = GAME_OVER
          \<and> map (\<lambda>r. (outcome r, payout r)) (results g') = [(BLACKJACK, 3 / 2)]"
    using placeBets_naturals[OF s2 ne v2] bj_hands(1,2) bj_deal by (auto simp: Let_def)
  have 3: "\<exists>g'. placeBets [Num 10] demo_game = Some (Returned g') \<and> state g' = PLAYER_TURN
          \<and> activeHandIdx g' < length (playerHands g')"
    using placeBets_naturals[OF s3 ne v3] demo_player_hand(1) demo_dealer_hand demo_deal
    by (auto simp: Let_def)
  from s1 s2 s3 v1 v2 v3 n 1 2 3 show ?thesis by blast
qed

subsection \<open>Card conservation\<close>

lemma hands_count_append: "hands_count (xs @ ys) = hands_count xs + hands_count ys"
  by (simp add: hands_count_def)

lemma hands_count_Cons: "hands_count (h # hs) = hand_size h + hands_count hs"
  by (simp add: hands_count_def)

lemma hands_count_splice:
  assumes "i < length hs"
  shows "hands_count (take i hs @ xs @ drop (Suc i) hs) + hand_size (hs ! i)
     = hands_count hs + hands_count xs"
proof -
  have "hs = take i hs @ hs ! i # drop (Suc i) hs" using assms by (simp add: id_take_nth_drop)
  then have "hands_count hs
      = hands_count (take i hs) + hand_size (hs ! i) + hands_count (drop (Suc i) hs)"
    by (metis hands_count_append hands_count_Cons add.assoc)
  then show ?thesis by (simp add: hands_count_append)
qed

lemma hands_count_update:
  assumes "i < length hs"
  shows "hands_count (hs[i := h']) + hand_size (hs ! i) = hands_count hs + hand_size h'"
proof -
  have "hs[i := h'] = take i hs @ [h'] @ drop (Suc i) hs" using assms by (simp add: upd_conv_take_nth_drop)
  then show ?thesis using hands_count_splice[OF assms, of "[h']"] by (simp add: hands_count_def)
qed

lemma deal_to_hands_count:
  "deal_to_hands hs d = (hs', d') \<Longrightarrow>
   hands_count hs' + shoe_count d' = hands_count hs + shoe_count d"
proof (induction hs arbitrary: d hs' d')
  case Nil
  then show ?case by simp
next
  case (Cons h hs)
  obtain drawn d1 where d1: "draw 1 d = (drawn, d1)" by (cases "draw 1 d")
  obtain hs1 d2 where d2: "deal_to_hands hs d1 = (hs1, d2)" by (cases "deal_to_hands hs d1")
  from Cons.prems d1 d2 have e: "hs' = addCards drawn h # hs1" "d' = d2" by simp_all
  from draw_count[of 1 d] d1 have c: "length drawn + shoe_count d1 = shoe_count d" by simp
  have "hand_size (addCards drawn h) = hand_size h + length drawn"
    by (simp add: hand_size_def addCards_def)
  with Cons.IH[OF d2] c e show ?case by (simp add: hands_count_Cons)
qed

lemma deal_pass_count:
  assumes "deal_pass (hs, dh, d) = (hs', dh', d')"
  shows "hands_count hs' + hand_size dh' + shoe_count d' = hands_count hs + hand_size dh + shoe_count d"
proof -
  obtain hs1 d1 where a: "deal_to_hands hs d = (hs1, d1)" by (cases "deal_to_hands hs d")
  obtain drawn d2 where b: "draw 1 d1 = (drawn, d2)" by (cases "draw 1 d1")
  from assms a b have e: "hs' = hs1" "dh' = addCards drawn dh" "d' = d2"
    by (simp_all add: deal_pass_def)
  from draw_count[of 1 d1] b have c: "length drawn + shoe_count d2 = shoe_count d1" by simp
  have "hand_size (addCards drawn dh) = hand_size dh + length drawn"
    by (simp add: hand_size_def addCards_def)
  with deal_to_hands_count[OF a] c e show ?thesis by simp
qed

lemma dealInitial_count:
  assumes "dealInitial n bets dl = (hs, dh, dl')"
  shows "hands_count hs + hand_size dh + shoe_count (shoe dl') = shoe_count (shoe dl)"
proof -
  let ?hs0 = "map (\<lambda>i. createHand False (bet_or_zero bets i)) [0..<n]"
  let ?dh0 = "createHand True (Num 0)"
  obtain burned dl1 where b: "burnCard dl = (burned, dl1)" by (cases "burnCard dl")
  obtain hs1 dh1 s1 where p1: "deal_pass (?hs0, ?dh0, shoe dl1) = (hs1, dh1, s1)"
    by (cases "deal_pass (?hs0, ?dh0, shoe dl1)")
  obtain hs2 dh2 s2 where p2: "deal_pass (hs1, dh1, s1) = (hs2, dh2, s2)"
    by (cases "deal_pass (hs1, dh1, s1)")
  from assms b p1 p2 have eq: "hs = hs2" "dh = dh2" "dl' = dl1\<lparr>shoe := s2\<rparr>"
    by (simp_all add: dealInitial_def Let_def)
  have c1: "shoe_count (shoe dl1) = shoe_count (shoe dl)"
    using b burn_fields(4)[of 1 "shoe dl"] by (auto simp: burnCard_def split: prod.splits)
  have "hands_count ?hs0 = 0"
    by (induction n) (simp_all add: hands_count_def hand_size_def createHand_def)
  moreover have "hand_size ?dh0 = 0" by (simp add: hand_size_def createHand_def)
  ultimately show ?thesis using deal_pass_count[OF p1] deal_pass_count[OF p2] c1 eq by simp
qed

lemma createGame_inv: "round_inv (n * 52) (createGame n pen h17 r)"
proof -
  let ?cs = "concat (replicate n buildSingleDeck)"
  obtain cs' p' where s: "fisherYatesShuffle r 0 ?cs = (cs', p')"
    by (cases "fisherYatesShuffle r 0 ?cs")
  have "length ?cs = n * 52" by (induction n) (simp_all add: buildSingleDeck_length)
  with fisherYatesShuffle_length[of r 0 ?cs] s have "length cs' = n * 52" by simp
  then show ?thesis
    by (simp add: round_inv_def inPlay_def createGame_def createDealer_def createDeck_def
          reset_def Let_def s shoe_count_def)
qed

lemma skipSettledHands_inv:
  assumes r: "skipSettledHands g = Some r" and st: "state g = PLAYER_TURN"
    and dh: "dealerHand g = Some dh"
    and c: "shoe_count (shoe (dealer g)) + hands_count (playerHands g) + hand_size dh = T"
  shows "round_inv T (final r)"
proof -
  from skipSettledHands_props[OF dh r] obtain g' where g': "r = Returned g'"
    "playerHands g' = playerHands g"
    "(state g' = state g \<and> dealer g' = dealer g \<and> dealerHand g' = dealerHand g
          \<and> activeHandIdx g' < length (playerHands g))
     \<or> (state g' = GAME_OVER
          \<and> length (playerHands g) \<le> skip_loop (playerHands g) (activeHandIdx g)
          \<and> shoe_count (shoe (dealer g')) =
               shoe_count (shoe (dealer g)) + hands_count (playerHands g) + hand_size dh)"
    by blast
  from g'(3) show ?thesis
  proof
    assume "state g' = state g \<and> dealer g' = dealer g \<and> dealerHand g' = dealerHand g
          \<and> activeHandIdx g' < length (playerHands g)"
    with g'(1,2) st dh c show ?thesis by (simp add: round_inv_def inPlay_def)
  next
    assume "state g' = GAME_OVER
          \<and> length (playerHands g) \<le> skip_loop (playerHands g) (activeHandIdx g)
          \<and> shoe_count (shoe (dealer g')) =
               shoe_count (shoe (dealer g)) + hands_count (playerHands g) + hand_size dh"
    with g'(1) c show ?thesis by (simp add: round_inv_def inPlay_def)
  qed
qed

lemma round_inv_player:
  assumes "round_inv T g" "state g = PLAYER_TURN"
  obtains dh where "dealerHand g = Some dh" "activeHandIdx g < length (playerHands g)"
    "getActiveHand g = Some (playerHands g ! activeHandIdx g)"
    "shoe_count (shoe (dealer g)) + hands_count (playerHands g) + hand_size dh = T"
proof -
  from assms obtain dh where dh: "dealerHand g = Some dh"
    and i: "activeHandIdx g < length (playerHands g)"
    by (auto simp: round_inv_def)
  moreover from assms dh have
    "shoe_count (shoe (dealer g)) + hands_count (playerHands g) + hand_size dh = T"
    by (simp add: round_inv_def inPlay_def)
  moreover from i have "getActiveHand g = Some (playerHands g ! activeHandIdx g)"
    by (simp add: getActiveHand_def)
  ultimately show ?thesis using that by blast
qed

lemma placeBets_inv:
  assumes inv: "round_inv T g" and r: "placeBets bets g = Some r"
  shows "round_inv T (final r)"
proof (cases "state g \<noteq> BETTING \<or> length bets = 0")
  case True
  with r have "final r = g" by (auto simp: placeBets_def split: if_splits)
  with inv show ?thesis by simp
next
  case False
  then have st: "state g = BETTING" and len: "length bets \<noteq> 0" by simp_all
  obtain hs dh dl' where d: "dealInitial (length bets) bets (dealer g) = (hs, dh, dl')"
    by (cases "dealInitial (length bets) bets (dealer g)")
  from inv st have T: "shoe_count (shoe (dealer g)) = T" by (simp add: round_inv_def inPlay_def)
  from dealInitial_count[OF d] T
  have c: "shoe_count (shoe dl') + hands_count hs + hand_size dh = T" by simp
  let ?g1 = "g\<lparr>state := DEALING, dealer := dl', playerHands := hs, dealerHand := Some dh,
              activeHandIdx := 0, results := []\<rparr>"
  show ?thesis
  proof (cases "isBlackjack dh \<or> list_all isBlackjack hs")
    case True
    then have "r = settle (?g1\<lparr>state := SETTLEMENT\<rparr>)"
      using r st len d by (auto simp: placeBets_def Let_def split: if_splits)
    moreover have "dealerHand (?g1\<lparr>state := SETTLEMENT\<rparr>) = Some dh" by simp
    from settle_props[OF this] obtain g' where "settle (?g1\<lparr>state := SETTLEMENT\<rparr>) = Returned g'"
      "state g' = GAME_OVER"
      "shoe_count (shoe (dealer g')) = shoe_count (shoe (dealer (?g1\<lparr>state := SETTLEMENT\<rparr>)))
          + hands_count (playerHands (?g1\<lparr>state := SETTLEMENT\<rparr>)) + hand_size dh"
      by blast
    ultimately show ?thesis using c by (simp add: round_inv_def inPlay_def)
  next
    case False
    then have "skipSettledHands (?g1\<lparr>state := PLAYER_TURN\<rparr>) = Some r"
      using r st len d by (simp add: placeBets_def Let_def)
    from skipSettledHands_inv[OF this, of dh T] c show ?thesis by simp
  qed
qed

lemma advanceHand_inv:
  assumes r: "advanceHand g = Some r" and st: "state g = PLAYER_TURN"
    and dh: "dealerHand g = Some dh"
    and c: "shoe_count (shoe (dealer g)) + hands_count (playerHands g) + hand_size dh = T"
  shows "round_inv T (final r)"
proof -
  from r have "skipSettledHands (g\<lparr>activeHandIdx := activeHandIdx g + 1\<rparr>) = Some r"
    by (simp add: advanceHand_def)
  from skipSettledHands_inv[OF this, of dh T] st dh c show ?thesis by simp
qed

lemma hand_size_settle: "hand_size (hand_settle h) = hand_size h"
  by (simp add: hand_size_def hand_settle_def)

lemma playerHit_inv:
  assumes inv: "round_inv T g" and r: "playerHit g = Some r"
  shows "round_inv T (final r)"
proof (cases "state g = PLAYER_TURN")
  case False
  with r have "final r = g" by (auto simp: playerHit_def)
  with inv show ?thesis by simp
next
  case True
  from round_inv_player[OF inv True] obtain dh where dh: "dealerHand g = Some dh"
    and i: "activeHandIdx g < length (playerHands g)"
    and ah: "getActiveHand g = Some (playerHands g ! activeHandIdx g)"
    and c: "shoe_count (shoe (dealer g)) + hands_count (playerHands g) + hand_size dh = T"
    by blast
  let ?h = "playerHands g ! activeHandIdx g"
  let ?h' = "fst (snd (hit ?h (dealer g)))" and ?dl' = "snd (snd (hit ?h (dealer g)))"
  let ?g1 = "g\<lparr>dealer := ?dl', playerHands := (playerHands g)[activeHandIdx g := ?h']\<rparr>"
  have c1: "shoe_count (shoe ?dl') + hands_count ((playerHands g)[activeHandIdx g := ?h'])
      + hand_size dh = T"
    using hit_count[of ?h "dealer g"] hands_count_update[OF i, of ?h'] c by simp
  show ?thesis
  proof (cases "isBusted ?h'")
    case False
    then have "r = Returned ?g1"
      using r True ah by (simp add: playerHit_def Let_def split: prod.splits)
    then show ?thesis using True dh i c1 by (simp add: round_inv_def inPlay_def)
  next
    case b: True
    let ?g2 = "?g1\<lparr>playerHands := (playerHands ?g1)[activeHandIdx ?g1 := hand_settle ?h']\<rparr>"
    have a: "advanceHand ?g2 = Some r"
      using r True ah b by (simp add: playerHit_def Let_def split: prod.splits)
    have "hands_count ((playerHands g)[activeHandIdx g := hand_settle ?h'])
        = hands_count ((playerHands g)[activeHandIdx g := ?h'])"
      using hands_count_update[OF i, of "hand_settle ?h'"] hands_count_update[OF i, of ?h']
      by (simp add: hand_size_settle)
    with c1 have "shoe_count (shoe (dealer ?g2)) + hands_count (playerHands ?g2) + hand_size dh = T"
      by simp
    from advanceHand_inv[OF a _ _ this] True dh show ?thesis by simp
  qed
qed

lemma playerStand_inv:
  assumes inv: "round_inv T g" and r: "playerStand g = Some r"
  shows "round_inv T (final r)"
proof (cases "state g = PLAYER_TURN")
  case False
  with r have "final r = g" by (auto simp: playerStand_def)
  with inv show ?thesis by simp
next
  case True
  from round_inv_player[OF inv True] obtain dh where dh: "dealerHand g = Some dh"
    and i: "activeHandIdx g < length (playerHands g)"
    and ah: "getActiveHand g = Some (playerHands g ! activeHandIdx g)"
    and c: "shoe_count (shoe (dealer g)) + hands_count (playerHands g) + hand_size dh = T"
    by blast
  let ?h = "playerHands g ! activeHandIdx g"
  let ?g2 = "g\<lparr>playerHands := (playerHands g)[activeHandIdx g := hand_settle ?h]\<rparr>"
  have a: "advanceHand ?g2 = Some r" using r True ah by (simp add: playerStand_def)
  have "hands_count ((playerHands g)[activeHandIdx g := hand_settle ?h]) = hands_count (playerHands g)"
    using hands_count_update[OF i, of "hand_settle ?h"] by (simp add: hand_size_settle)
  with c have "shoe_count (shoe (dealer ?g2)) + hands_count (playerHands ?g2) + hand_size dh = T"
    by simp
  from advanceHand_inv[OF a _ _ this] True dh show ?thesis by simp
qed

lemma playerDoubleDown_inv:
  assumes inv: "round_inv T g" and r: "playerDoubleDown g = Some r"
  shows "round_inv T (final r)"
proof (cases "state g = PLAYER_TURN")
  case False
  with r have "final r = g" by (auto simp: playerDoubleDown_def)
  with inv show ?thesis by simp
next
  case True
  from round_inv_player[OF inv True] obtain dh where dh: "dealerHand g = Some dh"
    and i: "activeHandIdx g < length (playerHands g)"
    and ah: "getActiveHand g = Some (playerHands g ! activeHandIdx g)"
    and c: "shoe_count (shoe (dealer g)) + hands_count (playerHands g) + hand_size dh = T"
    by blast
  let ?h = "playerHands g ! activeHandIdx g"
  show ?thesis
  proof (cases "canDoubleDown ?h")
    case False
    with r True ah have "final r = g" by (auto simp: playerDoubleDown_def)
    with inv show ?thesis by simp
  next
    case cd: True
    let ?h' = "fst (snd (hit (doubleBet ?h) (dealer g)))"
    let ?dl' = "snd (snd (hit (doubleBet ?h) (dealer g)))"
    let ?g2 = "g\<lparr>dealer := ?dl', playerHands := (playerHands g)[activeHandIdx g := hand_settle ?h']\<rparr>"
    have a: "advanceHand ?g2 = Some r"
      using r True ah cd by (simp add: playerDoubleDown_def split: prod.splits)
    have "hand_size (doubleBet ?h) = hand_size ?h" by (simp add: hand_size_def doubleBet_def)
    with hit_count[of "doubleBet ?h" "dealer g"]
    have "hand_size ?h' + shoe_count (shoe ?dl') = hand_size ?h + shoe_count (shoe (dealer g))"
      by simp
    with hands_count_update[OF i, of "hand_settle ?h'"] c
    have "shoe_count (shoe (dealer ?g2)) + hands_count (playerHands ?g2) + hand_size dh = T"
      by (simp add: hand_size_settle)
    from advanceHand_inv[OF a _ _ this] True dh show ?thesis by simp
  qed
qed

lemma playerSplit_inv:
  assumes inv: "round_inv T g" and r: "playerSplit g = Some r"
  shows "round_inv T (final r)"
proof (cases "state g = PLAYER_TURN")
  case False
  with r have "final r = g" by (auto simp: playerSplit_def)
  with inv show ?thesis by simp
next
  case True
  from round_inv_player[OF inv True] obtain dh where dh: "dealerHand g = Some dh"
    and i: "activeHandIdx g < length (playerHands g)"
    and ah: "getActiveHand g = Some (playerHands g ! activeHandIdx g)"
    and c: "shoe_count (shoe (dealer g)) + hands_count (playerHands g) + hand_size dh = T"
    by blast
  let ?h = "playerHands g ! activeHandIdx g"
  show ?thesis
  proof (cases "canSplit ?h")
    case False
    with r True ah have "final r = g" by (auto simp: playerSplit_def)
    with inv show ?thesis by simp
  next
    case cs: True
    let ?A = "addCards [hand_cards ?h ! 0] (createHand False (bet ?h))"
    let ?B = "addCards [hand_cards ?h ! 1] (createHand False (bet ?h))"
    let ?a = "hit ?A (dealer g)"
    let ?b = "hit ?B (snd (snd ?a))"
    let ?hs' = "take (activeHandIdx g) (playerHands g) @ [fst (snd ?a), fst (snd ?b)]
              @ drop (activeHandIdx g + 1) (playerHands g)"
    let ?g2 = "g\<lparr>dealer := snd (snd ?b), playerHands := ?hs'\<rparr>"
    have sp: "hand_split ?h = Inr (?A, ?B)" using cs by (simp add: hand_split_def)
    have a: "skipSettledHands ?g2 = Some r"
      using r True ah cs sp by (simp add: playerSplit_def split: prod.splits)
    have sz: "hand_size ?A = 1" "hand_size ?B = 1" "hand_size ?h = 2"
      using cs by (simp_all add: hand_size_def addCards_def createHand_def canSplit_def)
    have "hand_size (fst (snd ?a)) + hand_size (fst (snd ?b)) + shoe_count (shoe (snd (snd ?b)))
        = 2 + shoe_count (shoe (dealer g))"
      using hit_count[of ?A "dealer g"] hit_count[of ?B "snd (snd ?a)"] sz by simp
    moreover have "hands_count ?hs' + 2 = hands_count (playerHands g)
        + (hand_size (fst (snd ?a)) + hand_size (fst (snd ?b)))"
      using hands_count_splice[OF i, of "[fst (snd ?a), fst (snd ?b)]"] sz
      by (simp add: hands_count_def)
    ultimately have "shoe_count (shoe (dealer ?g2)) + hands_count (playerHands ?g2) + hand_size dh = T"
      using c by simp
    from skipSettledHands_inv[OF a _ _ this] True dh show ?thesis by simp
  qed
qed

lemma perform_inv:
  assumes inv: "round_inv T g" and r: "perform a g = Some r"
    and nr: "case a of NewRound \<Rightarrow> state g = GAME_OVER \<or> state g = BETTING | _ \<Rightarrow> True"
  shows "round_inv T (final r)"
proof (cases a)
  case (PlaceBets bets)
  with r placeBets_inv[OF inv] show ?thesis by simp
next
  case PlayerHit
  with r playerHit_inv[OF inv] show ?thesis by simp
next
  case PlayerStand
  with r playerStand_inv[OF inv] show ?thesis by simp
next
  case PlayerDoubleDown
  with r playerDoubleDown_inv[OF inv] show ?thesis by simp
next
  case PlayerSplit
  with r playerSplit_inv[OF inv] show ?thesis by simp
next
  case NewRound
  with nr have "state g = GAME_OVER \<or> state g = BETTING" by simp
  with inv have "shoe_count (shoe (dealer g)) = T" by (auto simp: round_inv_def inPlay_def)
  moreover from r NewRound have "final r = newRound g" by auto
  ultimately show ?thesis by (simp add: round_inv_def inPlay_def newRound_def)
qed

lemma run_inv:
  "round_inv T g \<Longrightarrow> completeRounds g acts \<Longrightarrow> run g acts = Some g' \<Longrightarrow> round_inv T g'"
proof (induction acts arbitrary: g)
  case Nil
  then show ?case by simp
next
  case (Cons a acts)
  from Cons.prems(3) obtain r where r: "perform a g = Some r" and rest: "run (final r) acts = Some g'"
    by (auto split: option.splits)
  from Cons.prems(2) r have
    nr: "case a of NewRound \<Rightarrow> state g = GAME_OVER \<or> state g = BETTING | _ \<Rightarrow> True"
    and cr: "completeRounds (final r) acts" by simp_all
  from perform_inv[OF Cons.prems(1) r nr] have "round_inv T (final r)" .
  from Cons.IH[OF this cr rest] show ?case .
qed

text \<open>
  C3.  From a fresh game of \<open>n\<close> decks, whatever the penetration and the random source,
  after any sequence of actions in which \<open>newRound\<close> is only called between rounds, the
  machine is in \<open>BETTING\<close>, \<open>PLAYER_TURN\<close> or \<open>GAME_OVER\<close>, and the cards of the
  live shoe, of the discard pile and of the hands in play number \<open>n * 52\<close>; between
  rounds no hand is in play and the shoe holds them all.  \<open>burn\<close> moves cards from the
  live pile to the discard pile, \<open>draw\<close> takes its cards out of the shoe, \<open>discard\<close>
  appends to the discard pile, \<open>reshuffle\<close> merges the discard pile into the live pile,
  and the settlement appends every card of every player hand and of the dealer hand to
  the discard pile.
\<close>

theorem card_conservation:
  assumes cr: "completeRounds (createGame n pen h17 r) acts"
    and run: "run (createGame n pen h17 r) acts = Some g"
  shows "length (cards (shoe (dealer g))) + length (discardPile (shoe (dealer g))) + inPlay g
           = n * 52
     \<and> (state g = BETTING \<or> state g = GAME_OVER \<or> state g = PLAYER_TURN)
     \<and> (state g \<noteq> PLAYER_TURN \<longrightarrow>
          length (cards (shoe (dealer g))) + length (discardPile (shoe (dealer g))) = n * 52)
     \<and> (\<forall>k d. fst (burn k d) @ cards (snd (burn k d)) = cards d
              \<and> discardPile (snd (burn k d)) = discardPile d @ fst (burn k d))
     \<and> (\<forall>k d. length (fst (draw k d)) + length (cards (snd (draw k d)))
                + length (discardPile (snd (draw k d)))
              = length (cards d) + length (discardPile d))
     \<and> (\<forall>cs d. cards (discard cs d) = cards d \<and> discardPile (discard cs d) = discardPile d @ cs)
     \<and> (\<forall>d. discardPile (reshuffle d) = []
            \<and> length (cards (reshuffle d)) = length (cards d) + length (discardPile d)
            \<and> set (cards (reshuffle d)) = set (cards d) \<union> set (discardPile d))
     \<and> (\<forall>g0 dh. dealerHand g0 = Some dh \<longrightarrow>
            cards (shoe (dealer (final (settle g0)))) = cards (shoe (dealer g0))
          \<and> discardPile (shoe (dealer (final (settle g0))))
              = discardPile (shoe (dealer g0)) @ concat (map getCards (playerHands g0))
                @ getCards dh)"
proof -
  from run_inv[OF createGame_inv cr run] have inv: "round_inv (n * 52) g" .
  then have 1: "length (cards (shoe (dealer g))) + length (discardPile (shoe (dealer g)))
      + inPlay g = n * 52"
    and 2: "state g = BETTING \<or> state g = GAME_OVER \<or> state g = PLAYER_TURN"
    by (auto simp: round_inv_def shoe_count_def)
  from 1 have 3: "state g \<noteq> PLAYER_TURN \<longrightarrow>
          length (cards (shoe (dealer g))) + length (discardPile (shoe (dealer g))) = n * 52"
    by (auto simp: inPlay_def)
  have 4: "\<forall>k d. fst (burn k d) @ cards (snd (burn k d)) = cards d
              \<and> discardPile (snd (burn k d)) = discardPile d @ fst (burn k d)"
    by (simp add: burn_def Let_def)
  have 5: "\<forall>k d. length (fst (draw k d)) + length (cards (snd (draw k d)))
                + length (discardPile (snd (draw k d)))
              = length (cards d) + length (discardPile d)"
    using draw_count by (simp add: shoe_count_def add.assoc)
  have 6: "\<forall>cs d. cards (discard cs d) = cards d \<and> discardPile (discard cs d) = discardPile d @ cs"
    by (simp add: discard_def)
  have 7: "\<forall>d. discardPile (reshuffle d) = []
            \<and> length (cards (reshuffle d)) = length (cards d) + length (discardPile d)
            \<and> set (cards (reshuffle d)) = set (cards d) \<union> set (discardPile d)"
    by (simp add: reshuffle_fields)
  have 8: "\<forall>g0 dh. dealerHand g0 = Some dh \<longrightarrow>
            cards (shoe (dealer (final (settle g0)))) = cards (shoe (dealer g0))
          \<and> discardPile (shoe (dealer (final (settle g0))))
              = discardPile (shoe (dealer g0)) @ concat (map getCards (playerHands g0))
                @ getCards dh"
  proof (intro allI impI)
    fix g0 :: game and dh assume "dealerHand g0 = Some dh"
    from settle_props[OF this]
    show "cards (shoe (dealer (final (settle g0)))) = cards (shoe (dealer g0))
          \<and> discardPile (shoe (dealer (final (settle g0))))
              = discardPile (shoe (dealer g0)) @ concat (map getCards (playerHands g0))
                @ getCards dh"
      by auto
  qed
  from 1 2 3 4 5 6 7 8 show ?thesis by blast
qed

theorem card_conservation_witness:
  "completeRounds demo_game [PlaceBets [Num 10], PlayerStand, NewRound]
   \<and> run demo_game [PlaceBets [Num 10], PlayerStand, NewRound] = Some (newRound demo_over)
   \<and> state (newRound demo_over) = BETTING
   \<and> length (cards (shoe (dealer (newRound demo_over))))
       + length (discardPile (shoe (dealer (newRound demo_over)))) = 52
   \<and> completeRounds demo_game [PlaceBets [Num 10]]
   \<and> run demo_game [PlaceBets [Num 10]] = Some demo_dealt
   \<and> length (cards (shoe (dealer demo_dealt))) + length (discardPile (shoe (dealer demo_dealt)))
       + inPlay demo_dealt = 52
   \<and> inPlay demo_dealt = 4"
proof -
  have so: "state demo_over = GAME_OVER" by (simp add: demo_over_def)
  have c1: "completeRounds demo_game [PlaceBets [Num 10], PlayerStand, NewRound]"
    using demo_placeBets demo_playerStand so by simp
  have r1: "run demo_game [PlaceBets [Num 10], PlayerStand, NewRound] = Some (newRound demo_over)"
    using demo_placeBets demo_playerStand by simp
  have c2: "completeRounds demo_game [PlaceBets [Num 10]]"
    using demo_placeBets by simp
  have r2: "run demo_game [PlaceBets [Num 10]] = Some demo_dealt"
    using demo_placeBets by simp
  note w1 = card_conservation[of 1 "3 / 4" False "\<lambda>k. 0", folded demo_game_def, OF c1 r1]
  note w2 = card_conservation[of 1 "3 / 4" False "\<lambda>k. 0", folded demo_game_def, OF c2 r2]
  have s: "state (newRound demo_over) = BETTING" by (simp add: newRound_def)
  from w1 s have a: "length (cards (shoe (dealer (newRound demo_over))))
       + length (discardPile (shoe (dealer (newRound demo_over)))) = 52"
    by simp
  from w2 have b: "length (cards (shoe (dealer demo_dealt)))
       + length (discardPile (shoe (dealer demo_dealt))) + inPlay demo_dealt = 52"
    by simp
  have i: "inPlay demo_dealt = 4"
    by (simp add: inPlay_def demo_dealt_def hands_count_def hand_size_def)
  from c1 r1 s a c2 r2 b i show ?thesis by blast
qed

subsection \<open>An exhausted shoe under a dealer who must hit\<close>

text \<open>
  \<open>hit\<close> guards against an empty draw and adds nothing, but the loop of
  \<open>playDealerHand\<close> does not look at what \<open>hit\<close> returned: a dealer hand below 17
  over a shoe with no card left, live or discarded, is hit again and again.
\<close>

lemma draw_empty:
  assumes "shoe_count d = 0"
  shows "fst (draw k d) = []" and "shoe_count (snd (draw k d)) = 0"
  using draw_count[of k d] assms by simp_all

lemma hit_empty:
  assumes "shoe_count (shoe dl) = 0"
  shows "fst (snd (hit h dl)) = h" and "shoe_count (shoe (snd (snd (hit h dl)))) = 0"
proof -
  obtain drawn s' where d: "draw 1 (shoe dl) = (drawn, s')" by (cases "draw 1 (shoe dl)")
  from draw_empty[OF assms, of 1] d have "drawn = []" "shoe_count s' = 0" by simp_all
  with d show "fst (snd (hit h dl)) = h" "shoe_count (shoe (snd (snd (hit h dl)))) = 0"
    by (simp_all add: hit_def)
qed

lemma hits_empty:
  "shoe_count (shoe dl) = 0 \<Longrightarrow>
   fst (hits k (h, dl)) = h \<and> shoe_count (shoe (snd (hits k (h, dl)))) = 0"
proof (induction k arbitrary: dl)
  case 0
  then show ?case by simp
next
  case (Suc k)
  from hit_empty[OF Suc.prems, of h]
  have e: "fst (snd (hit h dl)) = h" "shoe_count (shoe (snd (snd (hit h dl)))) = 0" by simp_all
  have "snd (hit h dl) = (h, snd (snd (hit h dl)))" using e(1) by (simp add: prod_eq_iff)
  then have "hits (Suc k) (h, dl) = hits k (h, snd (snd (hit h dl)))" by simp
  with Suc.IH[OF e(2)] show ?case by simp
qed

lemma empty_hand_hits: "hand_cards h = [] \<Longrightarrow> shouldDealerHit dl h"
  by (simp add: shouldDealerHit_iff hand_total_def evaluate_def reduce_aces.simps)

lemma playDealerHand_exhausted:
  assumes "hand_cards h = []" and "shoe_count (shoe dl) = 0"
  shows "playDealerHand dl h = None"
proof (rule playDealerHand_diverges)
  fix k
  from hits_empty[OF assms(2), of k h] have "fst (hits k (h, dl)) = h" by simp
  with empty_hand_hits[OF assms(1)]
  show "shouldDealerHit (snd (hits k (h, dl))) (fst (hits k (h, dl)))" by simp
qed

lemma hand_within_one:
  assumes "hand_within 1 h"
  shows "\<not> isBusted h" and "\<not> isBlackjack h"
proof -
  from assms have "hand_within 2 h" by (simp add: hand_within_def)
  from hand_within_total(1)[OF this] show "\<not> isBusted h" .
  from assms show "\<not> isBlackjack h" by (simp add: hand_within_def isBlackjack_def)
qed

lemma skip_loop_unsettled:
  "i < length hs \<Longrightarrow> \<not> isSettled (hs ! i) \<Longrightarrow> skip_loop hs i = i"
  by (subst skip_loop.simps) simp

lemma skip_loop_end: "length hs \<le> i \<Longrightarrow> skip_loop hs i = i"
  by (subst skip_loop.simps) simp

lemma dead_table_stand:
  assumes d: "dead_table g"
  shows "(activeHandIdx g + 1 = length (playerHands g) \<longrightarrow> playerStand g = None)
     \<and> (activeHandIdx g + 1 < length (playerHands g) \<longrightarrow>
          (\<exists>g'. playerStand g = Some (Returned g') \<and> dead_table g'
             \<and> length (playerHands g') = length (playerHands g)
             \<and> activeHandIdx g' = activeHandIdx g + 1))"
proof -
  let ?i = "activeHandIdx g" and ?hs = "playerHands g"
  from d obtain dh where st: "state g = PLAYER_TURN" and i: "?i < length ?hs"
    and w: "list_all (hand_within 1) ?hs"
    and u: "list_all (\<lambda>h. \<not> settled h) (drop ?i ?hs)"
    and dh: "dealerHand g = Some dh" "hand_cards dh = []"
    and sc: "shoe_count (shoe (dealer g)) = 0"
    by (auto simp: dead_table_def split: option.splits)
  let ?hs' = "?hs[?i := hand_settle (?hs ! ?i)]"
  let ?g1 = "g\<lparr>playerHands := ?hs'\<rparr>"
  have ah: "getActiveHand g = Some (?hs ! ?i)" using i by (simp add: getActiveHand_def)
  have ps: "playerStand g = skipSettledHands (?g1\<lparr>activeHandIdx := ?i + 1\<rparr>)"
    using st ah by (simp add: playerStand_def advanceHand_def)
  have w': "list_all (hand_within 1) ?hs'"
  proof -
    have "hand_within 1 (hand_settle (?hs ! ?i))"
      using w i by (simp add: list_all_length hand_within_def hand_settle_def)
    with w i show ?thesis by (auto simp: list_all_length nth_list_update)
  qed
  show ?thesis
  proof (intro conjI impI)
    assume last: "?i + 1 = length ?hs"
    then have sl: "skip_loop ?hs' (?i + 1) = ?i + 1" using skip_loop_end[of ?hs' "?i + 1"] by simp
    have nb: "\<not> list_all isBusted ?hs'"
    proof -
      from w' have "\<forall>n<length ?hs'. hand_within 1 (?hs' ! n)" by (simp only: list_all_length)
      moreover have il: "?i < length ?hs'" using i by simp
      ultimately have "hand_within 1 (?hs' ! ?i)" by blast
      from hand_within_one(1)[OF this] have "\<not> isBusted (?hs' ! ?i)" .
      with il have "\<exists>n<length ?hs'. \<not> isBusted (?hs' ! n)" by blast
      then show ?thesis by (simp only: list_all_length) blast
    qed
    have "beginDealerTurn (?g1\<lparr>activeHandIdx := ?i + 1\<rparr>) = None"
      using nb dh sc playDealerHand_exhausted[of dh "dealer g"]
      by (simp add: beginDealerTurn_def Let_def)
    then show "playerStand g = None"
      using ps sl last by (simp add: skipSettledHands_def Let_def)
  next
    assume more: "?i + 1 < length ?hs"
    have nx: "?hs' ! (?i + 1) = ?hs ! (?i + 1)" by simp
    have "1 < length (drop ?i ?hs)" using more by simp
    then have "drop ?i ?hs ! 1 \<in> set (drop ?i ?hs)" by (rule nth_mem)
    moreover have "drop ?i ?hs ! 1 = ?hs ! (?i + 1)" using more by simp
    ultimately have "?hs ! (?i + 1) \<in> set (drop ?i ?hs)" by simp
    with u have us: "\<not> settled (?hs ! (?i + 1))" by (simp add: list_all_iff)
    have "?hs ! (?i + 1) \<in> set ?hs" using more by simp
    with w have "hand_within 1 (?hs ! (?i + 1))" by (simp add: list_all_iff)
    from hand_within_one[OF this] us nx have ns: "\<not> isSettled (?hs' ! (?i + 1))"
      by (simp add: isSettled_def)
    have sl: "skip_loop ?hs' (?i + 1) = ?i + 1"
      using skip_loop_unsettled[of "?i + 1" ?hs'] more ns by simp
    let ?g' = "?g1\<lparr>activeHandIdx := ?i + 1\<rparr>"
    have r: "playerStand g = Some (Returned ?g')"
      using ps sl more by (simp add: skipSettledHands_def Let_def)
    have u': "list_all (\<lambda>h. \<not> settled h) (drop (?i + 1) ?hs')"
    proof -
      have "drop (?i + 1) ?hs' = drop (?i + 1) ?hs" by simp
      moreover have "drop (?i + 1) ?hs = drop 1 (drop ?i ?hs)" by simp
      moreover have "set (drop 1 (drop ?i ?hs)) \<subseteq> set (drop ?i ?hs)" by (rule set_drop_subset)
      ultimately show ?thesis using u by (auto simp: list_all_iff)
    qed
    have "dead_table ?g'"
      using st more w' u' dh sc by (simp add: dead_table_def)
    with r show "\<exists>g'. playerStand g = Some (Returned g') \<and> dead_table g'
             \<and> length (playerHands g') = length (playerHands g)
             \<and> activeHandIdx g' = activeHandIdx g + 1"
      by (intro exI[of _ ?g']) simp
  qed
qed

lemma dead_table_run:
  "dead_table g \<Longrightarrow> length (playerHands g) - activeHandIdx g \<le> k \<Longrightarrow>
   run g (replicate k PlayerStand) = None"
proof (induction k arbitrary: g)
  case 0
  then show ?case by (simp add: dead_table_def)
next
  case (Suc k)
  from Suc.prems(1) have i: "activeHandIdx g < length (playerHands g)" by (simp add: dead_table_def)
  show ?case
  proof (cases "activeHandIdx g + 1 = length (playerHands g)")
    case True
    with dead_table_stand[OF Suc.prems(1)] show ?thesis by simp
  next
    case False
    with i have "activeHandIdx g + 1 < length (playerHands g)" by simp
    with dead_table_stand[OF Suc.prems(1)] obtain g' where g': "playerStand g = Some (Returned g')"
      "dead_table g'" "length (playerHands g') = length (playerHands g)"
      "activeHandIdx g' = activeHandIdx g + 1" by blast
    from g'(3,4) Suc.prems(2) have "length (playerHands g') - activeHandIdx g' \<le> k" by simp
    from Suc.IH[OF g'(2) this] g'(1) show ?thesis by simp
  qed
qed

lemma draw_one_exact:
  assumes p: "penetration d \<le> 1"
  shows "length (fst (draw 1 d)) = min 1 (shoe_count d)"
proof (cases "shoe_count d = 0")
  case True
  with draw_empty(1)[OF True, of 1] show ?thesis by simp
next
  case False
  let ?d1 = "if needsReshuffle d then reshuffle d else d"
  have "1 \<le> length (cards ?d1)"
  proof (cases "needsReshuffle d")
    case True
    from False have "0 < length (cards d) + length (discardPile d)"
      by (simp add: shoe_count_def)
    with True show ?thesis by (simp add: reshuffle_fields Suc_le_eq)
  next
    case nr: False
    have "0 \<le> of_nat (totalCards d) * (1 - penetration d)" using p by simp
    then have f: "0 \<le> \<lfloor>of_nat (totalCards d) * (1 - penetration d)\<rfloor>"
      by (simp only: zero_le_floor of_int_0)
    from nr have "\<lfloor>of_nat (totalCards d) * (1 - penetration d)\<rfloor> < int (length (cards d))"
      by (simp add: needsReshuffle_def)
    with f have "0 < int (length (cards d))" by linarith
    then have "1 \<le> length (cards d)" by (simp add: Suc_le_eq)
    with nr show ?thesis by simp
  qed
  then have "length (fst (draw 1 d)) = 1" by (simp add: draw_eq)
  with False show ?thesis by simp
qed

lemma deal_to_hands_exhaust:
  "penetration d \<le> 1 \<Longrightarrow> deal_to_hands hs d = (hs', d') \<Longrightarrow>
   shoe_count d' = shoe_count d - length hs \<and> penetration d' = penetration d"
proof (induction hs arbitrary: d hs' d')
  case Nil
  then show ?case by simp
next
  case (Cons h hs)
  obtain drawn d1 where d1: "draw 1 d = (drawn, d1)" by (cases "draw 1 d")
  obtain hs1 d2 where d2: "deal_to_hands hs d1 = (hs1, d2)" by (cases "deal_to_hands hs d1")
  from Cons.prems(2) d1 d2 have e: "d' = d2" by simp
  from draw_fields(2)[of 1 d] d1 have p1: "penetration d1 = penetration d" by simp
  from draw_one_exact[OF Cons.prems(1)] draw_count[of 1 d] d1
  have c: "shoe_count d1 = shoe_count d - 1" by simp
  from Cons.IH[OF _ d2] p1 Cons.prems(1) c e show ?case by simp
qed

lemma deal_to_hands_empty:
  "shoe_count d = 0 \<Longrightarrow> deal_to_hands hs d = (hs', d') \<Longrightarrow> hs' = hs \<and> shoe_count d' = 0"
proof (induction hs arbitrary: d hs' d')
  case Nil
  then show ?case by simp
next
  case (Cons h hs)
  obtain drawn d1 where d1: "draw 1 d = (drawn, d1)" by (cases "draw 1 d")
  obtain hs1 d2 where d2: "deal_to_hands hs d1 = (hs1, d2)" by (cases "deal_to_hands hs d1")
  from draw_empty[OF Cons.prems(1), of 1] d1 have e: "drawn = []" "shoe_count d1 = 0" by simp_all
  from Cons.prems(2) d1 d2 e have "hs' = h # hs1" "d' = d2" by (simp_all add: addCards_def)
  with Cons.IH[OF e(2) d2] show ?case by simp
qed

lemma dealInitial_exhaust:
  assumes p: "penetration (shoe dl) \<le> 1" and v: "shoe_valid (shoe dl)"
    and c: "shoe_count (shoe dl) \<le> n" and d: "dealInitial n bets dl = (hs, dh, dl')"
  shows "list_all (hand_within 1) hs \<and> hand_cards dh = [] \<and> shoe_count (shoe dl') = 0
     \<and> length hs = n"
proof -
  let ?hs0 = "map (\<lambda>i. createHand False (bet_or_zero bets i)) [0..<n]"
  let ?dh0 = "createHand True (Num 0)"
  obtain burned dl1 where b: "burnCard dl = (burned, dl1)" by (cases "burnCard dl")
  then have s1: "shoe dl1 = snd (burn 1 (shoe dl))"
    by (auto simp: burnCard_def split: prod.splits)
  have p1: "penetration (shoe dl1) \<le> 1" and v1: "shoe_valid (shoe dl1)"
    and c1: "shoe_count (shoe dl1) \<le> n"
    using p v c by (simp_all add: s1 burn_fields)
  obtain hs1 d1 where a1: "deal_to_hands ?hs0 (shoe dl1) = (hs1, d1)"
    by (cases "deal_to_hands ?hs0 (shoe dl1)")
  obtain x1 e1 where b1: "draw 1 d1 = (x1, e1)" by (cases "draw 1 d1")
  obtain hs2 d2 where a2: "deal_to_hands hs1 e1 = (hs2, d2)" by (cases "deal_to_hands hs1 e1")
  obtain x2 e2 where b2: "draw 1 d2 = (x2, e2)" by (cases "draw 1 d2")
  from d b a1 b1 a2 b2 have eq: "hs = hs2" "dh = addCards x2 (addCards x1 ?dh0)"
    "dl' = dl1\<lparr>shoe := e2\<rparr>"
    by (simp_all add: dealInitial_def Let_def deal_pass_def)
  from deal_to_hands_exhaust[OF p1 a1] c1 have z1: "shoe_count d1 = 0" by simp
  have h0: "list_all (hand_within 0) ?hs0"
    by (simp add: list_all_iff hand_within_def createHand_def)
  from deal_to_hands_within[OF a1 v1 h0] have w1: "list_all (hand_within (Suc 0)) hs1" by simp
  from draw_empty[OF z1, of 1] b1 have x1: "x1 = []" "shoe_count e1 = 0" by simp_all
  from deal_to_hands_empty[OF x1(2) a2] have h2: "hs2 = hs1" "shoe_count d2 = 0" by simp_all
  from draw_empty[OF h2(2), of 1] b2 have x2: "x2 = []" "shoe_count e2 = 0" by simp_all
  have "length hs1 = n" using deal_to_hands_fields[OF a1] by simp
  with eq w1 x1 x2 h2 show ?thesis by (simp add: addCards_def createHand_def)
qed

lemma placeBets_dead:
  assumes st: "state g = BETTING" and nb: "bets \<noteq> []"
    and p: "penetration (shoe (dealer g)) \<le> 1" and v: "shoe_valid (shoe (dealer g))"
    and c: "shoe_count (shoe (dealer g)) \<le> length bets"
  shows "\<exists>g'. placeBets bets g = Some (Returned g') \<and> dead_table g'
     \<and> length (playerHands g') = length bets \<and> activeHandIdx g' = 0"
proof -
  obtain hs dh dl' where d: "dealInitial (length bets) bets (dealer g) = (hs, dh, dl')"
    by (cases "dealInitial (length bets) bets (dealer g)")
  from dealInitial_exhaust[OF p v c d] have w: "list_all (hand_within 1) hs"
    and dh: "hand_cards dh = []" and z: "shoe_count (shoe dl') = 0" and l: "length hs = length bets"
    by simp_all
  from dealInitial_unsettled[OF d] have u: "list_all (\<lambda>h. \<not> settled h) hs" .
  from nb l have ne: "hs \<noteq> []" "0 < length hs" by auto
  then have h0: "hs ! 0 \<in> set hs" by simp
  with w u have w0: "hand_within 1 (hs ! 0)" "\<not> settled (hs ! 0)" by (simp_all add: list_all_iff)
  from hand_within_one[OF w0(1)] w0(2) have ns: "\<not> isSettled (hs ! 0)" by (simp add: isSettled_def)
  have nbj: "\<not> list_all isBlackjack hs"
    using hand_within_one(2)[OF w0(1)] h0 by (auto simp: list_all_iff)
  have ndb: "\<not> isBlackjack dh" using dh by (simp add: isBlackjack_def)
  have sl: "skip_loop hs 0 = 0" using skip_loop_unsettled[of 0 hs] ne ns by simp
  let ?g' = "g\<lparr>state := DEALING, dealer := dl', playerHands := hs, dealerHand := Some dh,
              activeHandIdx := 0, results := [], state := PLAYER_TURN, activeHandIdx := 0\<rparr>"
  have r: "placeBets bets g = Some (Returned ?g')"
    using st nb d nbj ndb sl ne by (simp add: placeBets_def skipSettledHands_def Let_def)
  have "dead_table ?g'" using w u dh z ne by (simp add: dead_table_def)
  with r l show ?thesis by (intro exI[of _ ?g']) simp
qed

lemma createGame_fresh:
  "state (createGame n pen h17 r) = BETTING"
  "penetration (shoe (dealer (createGame n pen h17 r))) = pen"
  "shoe_count (shoe (dealer (createGame n pen h17 r))) = n * 52"
proof -
  show "state (createGame n pen h17 r) = BETTING" by (simp add: createGame_def)
  show "penetration (shoe (dealer (createGame n pen h17 r))) = pen"
    by (simp add: createGame_def createDealer_def createDeck_def reset_def Let_def
          split: prod.splits)
  from createGame_inv[of n pen h17 r]
  show "shoe_count (shoe (dealer (createGame n pen h17 r))) = n * 52"
    by (simp add: round_inv_def inPlay_def createGame_def)
qed

text \<open>
  C9.  The claim is that every action returns control to the caller, the loop of
  \<open>playDealerHand\<close> performing finitely many hits on every reachable state.  The code
  does not have this property.  When a fresh game of \<open>n\<close> decks, with a penetration of at most 1, takes at
  least \<open>52 n\<close> bets, the first dealing pass hands every card of the shoe to the
  players (the burnt card comes back with the reshuffle), the dealer hand stays empty and
  the second pass finds nothing.  The hands are then stood one after the other, and the
  stand on the last one starts the dealer loop on the empty shoe: the run of
  \<open>placeBets\<close> followed by one \<open>playerStand\<close> per bet has no result.
\<close>

theorem last_stand_never_returns:
  assumes "pen \<le> 1" and "n * 52 \<le> length bets" and "bets \<noteq> []"
  shows "run (createGame n pen h17 r) (PlaceBets bets # replicate (length bets) PlayerStand) = None"
proof -
  let ?g = "createGame n pen h17 r"
  from placeBets_dead[of ?g bets] assms createGame_fresh[of n pen h17 r] createGame_valid[of n pen h17 r]
  obtain g' where g': "placeBets bets ?g = Some (Returned g')" "dead_table g'"
    "length (playerHands g') = length bets" "activeHandIdx g' = 0"
    by auto
  from dead_table_run[OF g'(2), of "length bets"] g'(3,4)
  have "run g' (replicate (length bets) PlayerStand) = None" by simp
  with g'(1) show ?thesis by simp
qed

theorem last_stand_never_returns_witness:
  "(3 / 4 :: rat) \<le> 1 \<and> 1 * 52 \<le> length (replicate 52 (Num 10))
   \<and> replicate 52 (Num 10) \<noteq> []
   \<and> run demo_game (PlaceBets (replicate 52 (Num 10)) # replicate 52 PlayerStand) = None"
proof -
  have a: "(3 / 4 :: rat) \<le> 1" by simp
  have b: "1 * 52 \<le> length (replicate 52 (Num 10))" by simp
  have c: "replicate 52 (Num 10) \<noteq> []" by simp
  from last_stand_never_returns[OF a b c, of False "\<lambda>k. 0"]
  have "run demo_game (PlaceBets (replicate 52 (Num 10)) # replicate 52 PlayerStand) = None"
    by (simp add: demo_game_def)
  with a b c show ?thesis by blast
qed

end
